theory Spec2Isabelle
  imports Complex_Main
begin

section \<open>Distance-dependent CRP clustering: the link graph and its coordinator\<close>

text \<open>
  A shallow embedding of \<^verbatim>\<open>clustering_system/clustering/igmm/DdCrpClustering.py\<close>.
  Python exceptions are values of \<open>py_error\<close>; every method that can raise returns
  \<open>py_error + result\<close>. Python floats are idealised as real numbers: rounding, overflow
  and NaN are outside the model, while \<^verbatim>\<open>math.log\<close> of a non-positive argument raises
  \<^verbatim>\<open>ValueError\<close> as in Python.
\<close>

subsection \<open>Python primitives\<close>

datatype py_error = IndexError | KeyError | ValueError | QueueEmpty

text \<open>\<^verbatim>\<open>xs[j]\<close> for an index that was read out of the link array: such an index can be the
  sentinel \<^verbatim>\<open>-1\<close>, and Python then counts from the end of the list.\<close>

definition py_get :: "'a list \<Rightarrow> int \<Rightarrow> py_error + 'a" where
  "py_get xs j =
     (if 0 \<le> j \<and> j < int (length xs) then Inr (xs ! nat j)
      else if j < 0 \<and> - int (length xs) \<le> j then Inr (xs ! nat (int (length xs) + j))
      else Inl IndexError)"

text \<open>\<^verbatim>\<open>xs[i]\<close> for a customer index handed in by a caller (never negative).\<close>

definition py_nth :: "'a list \<Rightarrow> nat \<Rightarrow> py_error + 'a" where
  "py_nth xs i = (if i < length xs then Inr (xs ! i) else Inl IndexError)"

text \<open>\<^verbatim>\<open>xs[i] = v\<close>.\<close>

definition py_store :: "'a list \<Rightarrow> nat \<Rightarrow> 'a \<Rightarrow> py_error + 'a list" where
  "py_store xs i v = (if i < length xs then Inr (xs[i := v]) else Inl IndexError)"

text \<open>\<^verbatim>\<open>s.remove(x)\<close> on a Python set raises \<^verbatim>\<open>KeyError\<close> when \<open>x\<close> is absent.\<close>

definition set_remove :: "'a set \<Rightarrow> 'a \<Rightarrow> py_error + 'a set" where
  "set_remove s x = (if x \<in> s then Inr (s - {x}) else Inl KeyError)"

text \<open>\<^verbatim>\<open>math.log\<close>.\<close>

definition math_log :: "real \<Rightarrow> py_error + real" where
  "math_log x = (if 0 < x then Inr (ln x) else Inl ValueError)"

subsection \<open>Decay kernels\<close>

definition window_decay :: "real \<Rightarrow> real \<Rightarrow> real" where
  "window_decay d a = (if d < a then 1 else 0)"

subsection \<open>The external mixture model and the pool of cluster numbers\<close>

text \<open>
  Modelled from the spec: \<^verbatim>\<open>mixture.new_vector\<close> belongs to the mixture model, which is
  not part of the source file. Of the mixture model only the array \<open>z\<close> of cluster ids
  is modelled; feature vectors and sufficient statistics play no part in the bookkeeping.
  \<open>newVector(vector, clusterId)\<close> registers a new observation under the given id.
\<close>

definition mixture_new_vector :: "int \<Rightarrow> int list \<Rightarrow> int list" where
  "mixture_new_vector k zs = zs @ [k]"

text \<open>
  Modelled from the spec: \<^verbatim>\<open>mixture.merge\<close> belongs to the mixture model, which is not
  part of the source file. \<open>merge(survivingId, absorbedId)\<close> moves all members of
  \<open>absorbedId\<close> into \<open>survivingId\<close>.
\<close>

definition mixture_merge :: "int \<Rightarrow> int \<Rightarrow> int list \<Rightarrow> int list" where
  "mixture_merge surviving absorbed zs = map (\<lambda>k. if k = absorbed then surviving else k) zs"

text \<open>
  Modelled from the spec: \<^verbatim>\<open>mixture.split\<close> belongs to the mixture model, which is not
  part of the source file. \<open>split(oldId, newId, movedMembers)\<close> moves exactly
  \<open>movedMembers\<close> to \<open>newId\<close>.
\<close>

definition mixture_split :: "int \<Rightarrow> int \<Rightarrow> nat set \<Rightarrow> int list \<Rightarrow> int list" where
  "mixture_split old_id new_id members zs =
     map (\<lambda>j. if j \<in> members then new_id else zs ! j) [0..<length zs]"

text \<open>
  Modelled from the spec: the pool \<^verbatim>\<open>self.reusable_numbers\<close> is created by the base
  class, which is not part of the source file. It is a queue of the cluster numbers that
  are free for reuse; \<^verbatim>\<open>put_nowait\<close> returns a number to the pool.
\<close>

definition put_nowait :: "int \<Rightarrow> int list \<Rightarrow> int list" where
  "put_nowait k pool = pool @ [k]"

text \<open>
  Modelled from the spec: taking a number out of the pool \<^verbatim>\<open>self.reusable_numbers\<close>, which
  belongs to the base class; an empty pool has no number to hand out.
\<close>

definition pool_get :: "int list \<Rightarrow> py_error + (int \<times> int list)" where
  "pool_get pool = (case pool of [] \<Rightarrow> Inl QueueEmpty | k # rest \<Rightarrow> Inr (k, rest))"

subsection \<open>State of the clustering object\<close>

record ddcrp =
  self_N :: nat
  self_K :: int
  self_K_max :: int
  self_alpha :: real
  self_f :: "real \<Rightarrow> real"
  self_ids :: "int list"
  self_g :: "nat set list"
  self_c :: "int list"
  self_timestamps :: "real list"
  self_likelihood_cache :: "nat set \<rightharpoonup> real"
  mixture_z :: "int list"
  reusable_numbers :: "int list"

text \<open>
  Modelled from the spec: \<^verbatim>\<open>_get_new_cluster_number\<close> is a method of the base class, which
  is not part of the source file. A new cluster id is drawn from the pool.
\<close>

definition get_new_cluster_number :: "ddcrp \<Rightarrow> py_error + (int \<times> ddcrp)" where
  "get_new_cluster_number st =
     (case pool_get (reusable_numbers st) of
        Inl e \<Rightarrow> Inl e
      | Inr (k, rest) \<Rightarrow> Inr (k, st\<lparr>reusable_numbers := rest\<rparr>))"

subsection \<open>\<^verbatim>\<open>_get_people_next_to\<close>: traversal of the undirected graph\<close>

text \<open>
  The stack is a Python list: \<^verbatim>\<open>pop\<close> takes the last element, \<^verbatim>\<open>extend\<close> appends. The
  order in which Python iterates over the set \<^verbatim>\<open>self.g[c] - visited\<close> is not specified;
  the model takes the increasing order.
\<close>

function people_loop :: "nat set list \<Rightarrow> nat list \<Rightarrow> nat set \<Rightarrow> py_error + nat set" where
  "people_loop gs stack visited =
     (if stack = [] then Inr visited
      else
        let c = last stack; stack1 = butlast stack in
        if c \<in> visited then people_loop gs stack1 visited
        else if c < length gs
          then people_loop gs (stack1 @ sorted_list_of_set (gs ! c - insert c visited))
                 (insert c visited)
          else Inl IndexError)"
  by pat_completeness auto
termination
proof (relation "measures [\<lambda>(gs, stack, visited). card ({0..<length gs} - visited),
                           \<lambda>(gs, stack, visited). length stack]", goal_cases)
  case 1
  show ?case by simp
next
  case (2 gs stack visited c stack1)
  then show ?case by simp
next
  case (3 gs stack visited c stack1)
  define n where "n = length gs"
  define top where "top = last stack"
  have top: "top < n" "top \<notin> visited"
    using 3 by (simp_all add: n_def top_def)
  have "card ({0..<n} - insert top visited) < card ({0..<n} - visited)"
  proof (rule psubset_card_mono)
    show "finite ({0..<n} - visited)" by simp
    have "top \<in> {0..<n} - visited" using top by simp
    moreover have "top \<notin> {0..<n} - insert top visited" by simp
    ultimately have "{0..<n} - insert top visited \<noteq> {0..<n} - visited" by metis
    moreover have "{0..<n} - insert top visited \<subseteq> {0..<n} - visited" by blast
    ultimately show "{0..<n} - insert top visited \<subset> {0..<n} - visited"
      by (rule psubsetI [rotated])
  qed
  then show ?case using 3 by (simp add: n_def top_def)
qed

definition get_people_next_to :: "ddcrp \<Rightarrow> nat \<Rightarrow> py_error + nat set" where
  "get_people_next_to st c = people_loop (self_g st) [c] {}"

subsection \<open>\<^verbatim>\<open>_is_table_split\<close>: traversal of the directed links\<close>

text \<open>
  The \<^verbatim>\<open>while\<close> loop of \<^verbatim>\<open>_is_table_split\<close>. Each round adds the current node to
  \<open>visited\<close> and reads its link; the read raises \<^verbatim>\<open>IndexError\<close> outside the array, so
  only the finitely many valid indices can ever be added and the loop always ends.
\<close>

function is_table_split_loop :: "int list \<Rightarrow> int \<Rightarrow> int \<Rightarrow> int set \<Rightarrow> py_error + bool" where
  "is_table_split_loop cs i cur visited =
     (if cur \<in> visited then Inr True
      else
        case py_get cs cur of
          Inl e \<Rightarrow> Inl e
        | Inr nxt \<Rightarrow>
            if nxt = i then Inr False
            else is_table_split_loop cs i nxt (insert cur visited))"
  by pat_completeness auto
termination
proof (relation "measure (\<lambda>(cs, i, cur, visited).
          card ({- int (length cs)..<int (length cs)} - visited))", goal_cases)
  case 1
  show ?case by simp
next
  case (2 cs i cur visited nxt)
  define dom where "dom = {- int (length cs)..<int (length cs)}"
  have inside: "cur \<in> dom"
    using 2(2) by (auto simp: py_get_def dom_def split: if_splits)
  have "card (dom - insert cur visited) < card (dom - visited)"
  proof (rule psubset_card_mono)
    show "finite (dom - visited)" by (simp add: dom_def)
    have "cur \<in> dom - visited" using inside 2(1) by simp
    moreover have "cur \<notin> dom - insert cur visited" by simp
    ultimately have "dom - insert cur visited \<noteq> dom - visited" by metis
    moreover have "dom - insert cur visited \<subseteq> dom - visited" by blast
    ultimately show "dom - insert cur visited \<subset> dom - visited"
      by (rule psubsetI [rotated])
  qed
  then show ?case by (simp add: dom_def)
qed

definition is_table_split :: "ddcrp \<Rightarrow> nat \<Rightarrow> py_error + bool" where
  "is_table_split st i =
     (case py_nth (self_c st) i of
        Inl e \<Rightarrow> Inl e
      | Inr c0 \<Rightarrow>
          if c0 = int i then Inr False
          else
            case py_get (self_c st) c0 of
              Inl e \<Rightarrow> Inl e
            | Inr c1 \<Rightarrow>
                if int i = c1 then Inr False
                else is_table_split_loop (self_c st) (int i) c0 {int i})"

subsection \<open>\<^verbatim>\<open>_add_assignment\<close> and \<^verbatim>\<open>_remove_assignment\<close>\<close>

definition add_assignment :: "ddcrp \<Rightarrow> nat \<Rightarrow> nat \<Rightarrow> py_error + ddcrp" where
  "add_assignment st i c =
     (case py_nth (mixture_z st) i of
        Inl e \<Rightarrow> Inl e
      | Inr z_i \<Rightarrow>
     (case py_nth (mixture_z st) c of
        Inl e \<Rightarrow> Inl e
      | Inr z_c \<Rightarrow>
     (let st1 =
            (if z_i \<noteq> z_c then
               let table_to_join = (if z_i > z_c then z_i else z_c);
                   table_no = (if z_i > z_c then z_c else z_i)
               in st\<lparr>reusable_numbers := put_nowait table_to_join (reusable_numbers st),
                      self_K := self_K st - 1,
                      mixture_z := mixture_merge table_no table_to_join (mixture_z st)\<rparr>
             else st)
      in
     (case py_store (self_c st1) i (int c) of
        Inl e \<Rightarrow> Inl e
      | Inr c' \<Rightarrow>
     (case py_nth (self_g st1) i of
        Inl e \<Rightarrow> Inl e
      | Inr g_i \<Rightarrow>
     (let g1 = (self_g st1)[i := insert c g_i] in
     (case py_nth g1 c of
        Inl e \<Rightarrow> Inl e
      | Inr g_c \<Rightarrow>
          Inr (st1\<lparr>self_c := c', self_g := g1[c := insert i g_c]\<rparr>))))))))"

text \<open>
  The update of the undirected graph in \<^verbatim>\<open>_remove_assignment\<close>. The link value \<open>c\<close> is an
  integer read from the link array; the adjacency sets only ever receive customer indices,
  so removing a negative value from one raises \<^verbatim>\<open>KeyError\<close>.
\<close>

definition remove_from_graph :: "nat set list \<Rightarrow> nat \<Rightarrow> int \<Rightarrow> int \<Rightarrow> py_error + nat set list" where
  "remove_from_graph gs i c c_c =
     (if c = int i then
        (case py_nth gs i of
           Inl e \<Rightarrow> Inl e
         | Inr g_i \<Rightarrow>
        (case set_remove g_i i of
           Inl e \<Rightarrow> Inl e
         | Inr s \<Rightarrow> Inr (gs[i := s])))
      else if c_c = int i then Inr gs
      else
        (case py_nth gs i of
           Inl e \<Rightarrow> Inl e
         | Inr g_i \<Rightarrow>
        (if c < 0 then Inl KeyError
         else
        (case set_remove g_i (nat c) of
           Inl e \<Rightarrow> Inl e
         | Inr s \<Rightarrow>
        (let g1 = gs[i := s] in
        (case py_get g1 c of
           Inl e \<Rightarrow> Inl e
         | Inr g_c \<Rightarrow>
        (case set_remove g_c i of
           Inl e \<Rightarrow> Inl e
         | Inr s' \<Rightarrow> Inr (g1[nat c := s']))))))))"

definition remove_assignment :: "ddcrp \<Rightarrow> nat \<Rightarrow> py_error + ddcrp" where
  "remove_assignment st i =
     (case is_table_split st i of
        Inl e \<Rightarrow> Inl e
      | Inr is_split \<Rightarrow>
     (case py_nth (self_c st) i of
        Inl e \<Rightarrow> Inl e
      | Inr c \<Rightarrow>
     (case py_get (self_c st) c of
        Inl e \<Rightarrow> Inl e
      | Inr c_c \<Rightarrow>
     (case remove_from_graph (self_g st) i c c_c of
        Inl e \<Rightarrow> Inl e
      | Inr g' \<Rightarrow>
     (let st1 = st\<lparr>self_g := g', self_c := (self_c st)[i := - 1]\<rparr> in
      if is_split then
        (case get_new_cluster_number st1 of
           Inl e \<Rightarrow> Inl e
         | Inr (new_table_no, st2) \<Rightarrow>
        (case py_nth (mixture_z st2) i of
           Inl e \<Rightarrow> Inl e
         | Inr z_i \<Rightarrow>
        (case get_people_next_to st2 i of
           Inl e \<Rightarrow> Inl e
         | Inr people \<Rightarrow>
             Inr (st2\<lparr>mixture_z := mixture_split z_i new_table_no people (mixture_z st2),
                      self_K := self_K st2 + 1\<rparr>))))
      else Inr st1)))))"

subsection \<open>Log-weights of the candidate links\<close>

text \<open>
  The marginal log-likelihood \<open>L\<close> of a set of customers belongs to the external mixture
  model (\<^verbatim>\<open>mixture.get_marginal_likelihood\<close>) and is a parameter. One cache access:
  return the stored value, or compute, store and return it.
\<close>

definition cache_get ::
  "(nat set \<Rightarrow> real) \<Rightarrow> (nat set \<rightharpoonup> real) \<Rightarrow> nat set \<Rightarrow> real \<times> (nat set \<rightharpoonup> real)" where
  "cache_get L cache members =
     (case cache members of
        Some v \<Rightarrow> (v, cache)
      | None \<Rightarrow> (L members, cache(members \<mapsto> L members)))"

definition likelihood_under_z ::
  "(nat set \<Rightarrow> real) \<Rightarrow> ddcrp \<Rightarrow> nat \<Rightarrow> nat \<Rightarrow> py_error + (real \<times> ddcrp)" where
  "likelihood_under_z L st i c =
     (case get_people_next_to st i of
        Inl e \<Rightarrow> Inl e
      | Inr table_k_members \<Rightarrow>
     (case get_people_next_to st c of
        Inl e \<Rightarrow> Inl e
      | Inr table_l_members \<Rightarrow>
     (let table_kl_members = table_k_members \<union> table_l_members;
          (table_k, cache1) = cache_get L (self_likelihood_cache st) table_k_members;
          (table_l, cache2) = cache_get L cache1 table_l_members;
          (table_kl, cache3) = cache_get L cache2 table_kl_members
      in Inr (table_kl - table_k - table_l, st\<lparr>self_likelihood_cache := cache3\<rparr>))))"

definition assignment_probability ::
  "(nat set \<Rightarrow> real) \<Rightarrow> ddcrp \<Rightarrow> nat \<Rightarrow> nat \<Rightarrow> py_error + (real \<times> ddcrp)" where
  "assignment_probability L st i c =
     (if i = c then
        (case math_log (self_alpha st) of
           Inl e \<Rightarrow> Inl e
         | Inr v \<Rightarrow> Inr (v, st))
      else
        (case py_nth (self_timestamps st) i of
           Inl e \<Rightarrow> Inl e
         | Inr t_i \<Rightarrow>
        (case py_nth (self_timestamps st) c of
           Inl e \<Rightarrow> Inl e
         | Inr t_c \<Rightarrow>
        (let d = \<bar>t_i - t_c\<bar> in
        (case py_nth (mixture_z st) i of
           Inl e \<Rightarrow> Inl e
         | Inr z_i \<Rightarrow>
        (case py_nth (mixture_z st) c of
           Inl e \<Rightarrow> Inl e
         | Inr z_c \<Rightarrow>
        (case math_log (self_f st d) of
           Inl e \<Rightarrow> Inl e
         | Inr v \<Rightarrow>
             if z_i = z_c then Inr (v, st)
             else
               (case likelihood_under_z L st i c of
                  Inl e \<Rightarrow> Inl e
                | Inr (lik, st') \<Rightarrow> Inr (v + lik, st')))))))))"

fun assignment_probabilities_loop ::
  "(nat set \<Rightarrow> real) \<Rightarrow> ddcrp \<Rightarrow> nat \<Rightarrow> nat list \<Rightarrow> (nat \<times> real) list
     \<Rightarrow> py_error + ((nat \<times> real) list \<times> ddcrp)" where
  "assignment_probabilities_loop L st i [] probabilities = Inr (probabilities, st)"
| "assignment_probabilities_loop L st i (c # cs) probabilities =
     (case assignment_probability L st i c of
        Inl e \<Rightarrow> Inl e
      | Inr (prob, st') \<Rightarrow>
          assignment_probabilities_loop L st' i cs (probabilities @ [(c, prob)]))"

definition get_assignment_probabilities ::
  "(nat set \<Rightarrow> real) \<Rightarrow> ddcrp \<Rightarrow> nat \<Rightarrow> py_error + ((nat \<times> real) list \<times> ddcrp)" where
  "get_assignment_probabilities L st i =
     assignment_probabilities_loop L st i [0..<self_N st] []"

subsection \<open>\<^verbatim>\<open>_sample_document\<close>\<close>

text \<open>
  \<^verbatim>\<open>scipy.misc.logsumexp\<close> on a one-dimensional array of finite numbers: the maximum is
  subtracted before exponentiating and added back after the logarithm.
\<close>

definition logsumexp :: "real list \<Rightarrow> real" where
  "logsumexp xs = (let a_max = Max (set xs) in ln (\<Sum>x\<leftarrow>xs. exp (x - a_max)) + a_max)"

text \<open>
  Lines 121 to 123: unzip the indexed log-weights, normalise, zip again. Unpacking
  \<^verbatim>\<open>zip(*[])\<close> into two names raises \<^verbatim>\<open>ValueError\<close>.
\<close>

definition to_probabilities :: "(nat \<times> real) list \<Rightarrow> py_error + (nat \<times> real) list" where
  "to_probabilities indexed =
     (if indexed = [] then Inl ValueError
      else
        let ids = map fst indexed;
            logs = map snd indexed;
            lse = logsumexp logs
        in Inr (zip ids (map (\<lambda>x. exp (x - lse)) logs)))"

text \<open>
  \<^verbatim>\<open>draw_indexed\<close> draws an index at random from the distribution; the drawn index is the
  argument \<open>drawn\<close>.
\<close>

definition sample_document ::
  "(nat set \<Rightarrow> real) \<Rightarrow> ddcrp \<Rightarrow> nat \<Rightarrow> nat \<Rightarrow> py_error + ddcrp" where
  "sample_document L st i drawn =
     (case remove_assignment st i of
        Inl e \<Rightarrow> Inl e
      | Inr st1 \<Rightarrow>
     (case get_assignment_probabilities L st1 i of
        Inl e \<Rightarrow> Inl e
      | Inr (log_probabilities, st2) \<Rightarrow>
     (case to_probabilities log_probabilities of
        Inl e \<Rightarrow> Inl e
      | Inr probabilities \<Rightarrow> add_assignment st2 i drawn)))"

subsection \<open>\<^verbatim>\<open>__init__\<close> and \<^verbatim>\<open>add_documents\<close>\<close>

text \<open>
  Modelled from the spec: the constructor of the base class, which is not part of the
  source file, sets up the counters \<open>N\<close> and \<open>K\<close>, \<open>K_max\<close>, \<open>alpha\<close> and the pool.
  Cluster ids are drawn from the bounded pool \<open>[0, K_max)\<close>, and there are no customers
  and no clusters at the start. The fields \<open>f\<close>, \<open>g\<close>, \<open>c\<close>, \<open>timestamps\<close> and
  \<open>likelihood_cache\<close> are set as in \<^verbatim>\<open>__init__\<close> of the source file.
\<close>

definition init :: "nat \<Rightarrow> real \<Rightarrow> (real \<Rightarrow> real) \<Rightarrow> ddcrp" where
  "init K al decay_function =
     \<lparr>self_N = 0, self_K = 0, self_K_max = int K, self_alpha = al, self_f = decay_function,
      self_ids = [], self_g = [], self_c = [], self_timestamps = [],
      self_likelihood_cache = Map.empty, mixture_z = [],
      reusable_numbers = map int [0..<K]\<rparr>"

text \<open>Lines 93 to 99 of \<^verbatim>\<open>add_documents\<close>: the new customer sits at a table of its own.\<close>

definition append_customer :: "ddcrp \<Rightarrow> int \<Rightarrow> py_error + ddcrp" where
  "append_customer st doc_id =
     (let i = self_N st;
          st1 = st\<lparr>self_ids := self_ids st @ [doc_id],
                   self_c := self_c st @ [int i],
                   self_g := self_g st @ [{i}]\<rparr>
      in
      case get_new_cluster_number st1 of
        Inl e \<Rightarrow> Inl e
      | Inr (k, st2) \<Rightarrow>
          Inr (st2\<lparr>mixture_z := mixture_new_vector k (mixture_z st2),
                   self_N := self_N st2 + 1,
                   self_K := self_K st2 + 1\<rparr>))"

text \<open>
  One round of the loop of \<^verbatim>\<open>add_documents\<close>. \<open>r\<close> is the value returned by
  \<^verbatim>\<open>random.randint(0, i)\<close>, an integer with \<open>0 \<le> r \<le> i\<close>.
\<close>

definition add_document :: "ddcrp \<Rightarrow> int \<Rightarrow> real \<Rightarrow> nat \<Rightarrow> py_error + ddcrp" where
  "add_document st doc_id timestamp r =
     (let i = self_N st in
      case append_customer st doc_id of
        Inl e \<Rightarrow> Inl e
      | Inr st1 \<Rightarrow>
     (case (if int (self_N st1) > self_K_max st1 then
              (case remove_assignment st1 i of
                 Inl e \<Rightarrow> Inl e
               | Inr st2 \<Rightarrow> add_assignment st2 i r)
            else Inr st1) of
        Inl e \<Rightarrow> Inl e
      | Inr st3 \<Rightarrow>
          Inr (st3\<lparr>self_timestamps := self_timestamps st3 @ [timestamp / (60 * 60 * 24)]\<rparr>)))"

fun add_documents :: "ddcrp \<Rightarrow> (int \<times> real \<times> nat) list \<Rightarrow> py_error + ddcrp" where
  "add_documents st [] = Inr st"
| "add_documents st ((doc_id, timestamp, r) # rest) =
     (case add_document st doc_id timestamp r of
        Inl e \<Rightarrow> Inl e
      | Inr st' \<Rightarrow> add_documents st' rest)"

text \<open>
  The same round of \<^verbatim>\<open>add_documents\<close> with the outcome of the call
  \<^verbatim>\<open>self._get_new_cluster_number()\<close> as a parameter: the call has returned the number
  \<open>k\<close> and left the pool as \<open>rest\<close>. The method belongs to the base class, which is not
  part of the source file, so nothing is fixed here about how it finds the number.
\<close>

definition append_customer_drawn :: "ddcrp \<Rightarrow> int \<Rightarrow> int \<Rightarrow> int list \<Rightarrow> ddcrp" where
  "append_customer_drawn st doc_id k rest =
     (let i = self_N st;
          st1 = st\<lparr>self_ids := self_ids st @ [doc_id],
                   self_c := self_c st @ [int i],
                   self_g := self_g st @ [{i}]\<rparr>;
          st2 = st1\<lparr>reusable_numbers := rest\<rparr>
      in st2\<lparr>mixture_z := mixture_new_vector k (mixture_z st2),
              self_N := self_N st2 + 1,
              self_K := self_K st2 + 1\<rparr>)"

definition add_document_drawn ::
  "ddcrp \<Rightarrow> int \<Rightarrow> real \<Rightarrow> nat \<Rightarrow> int \<Rightarrow> int list \<Rightarrow> py_error + ddcrp" where
  "add_document_drawn st doc_id timestamp r k rest =
     (let i = self_N st;
          st1 = append_customer_drawn st doc_id k rest
      in
      case (if int (self_N st1) > self_K_max st1 then
              (case remove_assignment st1 i of
                 Inl e \<Rightarrow> Inl e
               | Inr st2 \<Rightarrow> add_assignment st2 i r)
            else Inr st1) of
        Inl e \<Rightarrow> Inl e
      | Inr st3 \<Rightarrow>
          Inr (st3\<lparr>self_timestamps := self_timestamps st3 @ [timestamp / (60 * 60 * 24)]\<rparr>))"

subsection \<open>The undirected graph as a relation and the walk along the links\<close>

definition edges :: "nat set list \<Rightarrow> (nat \<times> nat) set" where
  "edges gs = {(a, b). a < length gs \<and> b \<in> gs ! a}"

definition connected :: "nat set list \<Rightarrow> nat \<Rightarrow> nat \<Rightarrow> bool" where
  "connected gs a b \<longleftrightarrow> (a, b) \<in> (edges gs)\<^sup>*"

definition wf_g :: "nat set list \<Rightarrow> bool" where
  "wf_g gs \<longleftrightarrow> (\<forall>a < length gs. \<forall>b \<in> gs ! a. b < length gs)"

text \<open>
  Every customer has a link to a customer; \<open>follow cs a\<close> is the customer that \<open>a\<close>
  points to.
\<close>

definition links_active :: "int list \<Rightarrow> bool" where
  "links_active cs \<longleftrightarrow> (\<forall>a < length cs. 0 \<le> cs ! a \<and> cs ! a < int (length cs))"

definition follow :: "int list \<Rightarrow> nat \<Rightarrow> nat" where
  "follow cs a = nat (cs ! a)"

definition component :: "nat set list \<Rightarrow> nat \<Rightarrow> nat set" where
  "component gs a = {b. connected gs a b}"

subsection \<open>Consistency of the two graphs, the cluster ids and the pool\<close>

text \<open>
  \<open>graph_of_links\<close>: the undirected graph is the link array made symmetric.
  \<open>components_are_clusters\<close>: two customers are connected in the undirected graph
  exactly when the mixture model gives them the same cluster id.
  \<open>pool_ok\<close>: the pool holds each id once, and none that is in use.
\<close>

definition sizes_ok :: "ddcrp \<Rightarrow> bool" where
  "sizes_ok st \<longleftrightarrow>
     length (self_c st) = self_N st \<and> length (self_g st) = self_N st \<and>
     length (mixture_z st) = self_N st"

definition graph_of_links :: "ddcrp \<Rightarrow> bool" where
  "graph_of_links st \<longleftrightarrow>
     (\<forall>a < self_N st. self_g st ! a =
        {b. b < self_N st \<and> (self_c st ! a = int b \<or> self_c st ! b = int a)})"

definition components_are_clusters :: "ddcrp \<Rightarrow> bool" where
  "components_are_clusters st \<longleftrightarrow>
     (\<forall>a < self_N st. \<forall>b < self_N st.
        connected (self_g st) a b \<longleftrightarrow> mixture_z st ! a = mixture_z st ! b)"

definition pool_ok :: "ddcrp \<Rightarrow> bool" where
  "pool_ok st \<longleftrightarrow>
     distinct (reusable_numbers st) \<and> set (reusable_numbers st) \<inter> set (mixture_z st) = {}"

definition state_inv :: "ddcrp \<Rightarrow> bool" where
  "state_inv st \<longleftrightarrow> sizes_ok st \<and> graph_of_links st \<and> components_are_clusters st \<and> pool_ok st"

definition stable_inv :: "ddcrp \<Rightarrow> bool" where
  "stable_inv st \<longleftrightarrow> state_inv st \<and> links_active (self_c st)"

definition pending_inv :: "nat \<Rightarrow> ddcrp \<Rightarrow> bool" where
  "pending_inv i st \<longleftrightarrow>
     state_inv st \<and> i < self_N st \<and> self_c st ! i = - 1 \<and>
     (\<forall>a < self_N st. a \<noteq> i \<longrightarrow> 0 \<le> self_c st ! a \<and> self_c st ! a < int (self_N st))"

text \<open>
  The update of the undirected graph as the specification words it: given the target
  \<open>t\<close> of customer \<open>i\<close>, a self-link is taken out of \<open>g[i]\<close>, a mutual pair leaves the
  graph as it is, and otherwise \<open>t\<close> leaves \<open>g[i]\<close> and \<open>i\<close> leaves \<open>g[t]\<close>.
\<close>

definition removeLink_spec :: "nat set list \<Rightarrow> int list \<Rightarrow> nat \<Rightarrow> nat set list" where
  "removeLink_spec gs cs i =
     (let t = follow cs i in
      if t = i then gs[i := gs ! i - {i}]
      else if cs ! t = int i then gs
      else gs[i := gs ! i - {t}, t := gs ! t - {i}])"

subsection \<open>States between two link mutations\<close>

text \<open>
  \<open>stable st\<close>: a state of the object in which every customer has a link, reached by the
  constructor, by the ingestion of a customer and by a completed \<^verbatim>\<open>_add_assignment\<close>.
  \<open>pending i st\<close>: a state in which the link of customer \<open>i\<close> has been taken away by a
  completed \<^verbatim>\<open>_remove_assignment\<close> and not yet been put back. The methods of the class
  call \<^verbatim>\<open>_remove_assignment(i)\<close> only in a stable state and \<^verbatim>\<open>_add_assignment(i, c)\<close> only
  for the customer whose link is pending, with \<open>c\<close> a customer index.
\<close>

inductive stable :: "ddcrp \<Rightarrow> bool" and pending :: "nat \<Rightarrow> ddcrp \<Rightarrow> bool" where
  stable_init: "stable (init K al decay_function)"
| stable_append: "stable st \<Longrightarrow> append_customer st doc_id = Inr st' \<Longrightarrow> stable st'"
| stable_timestamp:
    "stable st \<Longrightarrow> stable (st\<lparr>self_timestamps := self_timestamps st @ [t]\<rparr>)"
| pending_remove:
    "stable st \<Longrightarrow> i < self_N st \<Longrightarrow> remove_assignment st i = Inr st' \<Longrightarrow> pending i st'"
| pending_probabilities:
    "pending i st \<Longrightarrow> get_assignment_probabilities L st i = Inr (ps, st') \<Longrightarrow> pending i st'"
| stable_add:
    "pending i st \<Longrightarrow> c < self_N st \<Longrightarrow> add_assignment st i c = Inr st' \<Longrightarrow> stable st'"

text \<open>What one access to the likelihood cache returns for a set of customers: the stored
  value if there is one, the marginal log-likelihood of the mixture model otherwise.\<close>

definition cached :: "(nat set \<Rightarrow> real) \<Rightarrow> (nat set \<rightharpoonup> real) \<Rightarrow> nat set \<Rightarrow> real" where
  "cached L cache members = (case cache members of Some v \<Rightarrow> v | None \<Rightarrow> L members)"

subsection \<open>Two small states of a run\<close>

text \<open>
  A run with capacity \<open>K = 2\<close>, \<open>alpha = 1\<close> and the window decay of width \<open>a\<close>: two
  documents arrive with timestamps of 0 and 2 days (\<open>example_ingested\<close>), then customer 1
  is sampled and linked to customer 0 (\<open>example_stable\<close>). Sampling customer 1 again first
  takes its link away, which splits the table (\<open>example_pending\<close>). If instead a third
  document arrives and \<^verbatim>\<open>random.randint(0, 2)\<close> returns 2, the result is
  \<open>example_singleton\<close>.
\<close>

definition example_ingested :: "real \<Rightarrow> ddcrp" where
  "example_ingested a =
     \<lparr>self_N = 2, self_K = 2, self_K_max = 2, self_alpha = 1,
      self_f = (\<lambda>d. window_decay d a),
      self_ids = [10, 11], self_g = [{0}, {1}], self_c = [0, 1],
      self_timestamps = [0, 2], self_likelihood_cache = Map.empty,
      mixture_z = [0, 1], reusable_numbers = []\<rparr>"

definition example_singleton :: "real \<Rightarrow> ddcrp" where
  "example_singleton a =
     \<lparr>self_N = 3, self_K = 2, self_K_max = 2, self_alpha = 1,
      self_f = (\<lambda>d. window_decay d a),
      self_ids = [10, 11, 12], self_g = [{0, 1}, {0}, {2}], self_c = [0, 0, 2],
      self_timestamps = [0, 2, 0], self_likelihood_cache = Map.empty,
      mixture_z = [0, 0, 1], reusable_numbers = []\<rparr>"

definition example_stable :: "real \<Rightarrow> ddcrp" where
  "example_stable a =
     \<lparr>self_N = 2, self_K = 1, self_K_max = 2, self_alpha = 1,
      self_f = (\<lambda>d. window_decay d a),
      self_ids = [10, 11], self_g = [{0, 1}, {0}], self_c = [0, 0],
      self_timestamps = [0, 2], self_likelihood_cache = Map.empty,
      mixture_z = [0, 0], reusable_numbers = [1]\<rparr>"

definition example_pending :: "real \<Rightarrow> ddcrp" where
  "example_pending a =
     \<lparr>self_N = 2, self_K = 2, self_K_max = 2, self_alpha = 1,
      self_f = (\<lambda>d. window_decay d a),
      self_ids = [10, 11], self_g = [{0}, {}], self_c = [0, - 1],
      self_timestamps = [0, 2], self_likelihood_cache = Map.empty,
      mixture_z = [0, 1], reusable_numbers = []\<rparr>"

section \<open>Correctness of the traversal of the undirected graph\<close>

lemma edges_Image: "c < length gs \<Longrightarrow> edges gs `` {c} = gs ! c"
  by (auto simp: edges_def)

lemma rtrancl_Image_absorb:
  assumes "c \<in> B" and "S \<subseteq> R `` {c}"
  shows "R\<^sup>* `` (B \<union> S) = R\<^sup>* `` B"
proof
  show "R\<^sup>* `` B \<subseteq> R\<^sup>* `` (B \<union> S)" by blast
  show "R\<^sup>* `` (B \<union> S) \<subseteq> R\<^sup>* `` B"
  proof
    fix y assume "y \<in> R\<^sup>* `` (B \<union> S)"
    then obtain x where x: "x \<in> B \<union> S" "(x, y) \<in> R\<^sup>*" by blast
    show "y \<in> R\<^sup>* `` B"
    proof (cases "x \<in> B")
      case True
      then show ?thesis using x by blast
    next
      case False
      then have "(c, x) \<in> R" using x assms by blast
      then have "(c, y) \<in> R\<^sup>*" using x(2) by (rule converse_rtrancl_into_rtrancl)
      then show ?thesis using assms(1) by blast
    qed
  qed
qed

lemma people_loop_Nil: "people_loop gs [] visited = Inr visited"
  by (simp add: people_loop.simps [of gs "[]" visited])

lemma people_loop_seen:
  "c \<in> visited \<Longrightarrow> people_loop gs (stack1 @ [c]) visited = people_loop gs stack1 visited"
  by (simp add: people_loop.simps [of gs "stack1 @ [c]" visited])

lemma people_loop_fresh:
  "c \<notin> visited \<Longrightarrow> c < length gs \<Longrightarrow>
     people_loop gs (stack1 @ [c]) visited =
     people_loop gs (stack1 @ sorted_list_of_set (gs ! c - insert c visited)) (insert c visited)"
  by (simp add: people_loop.simps [of gs "stack1 @ [c]" visited])

lemma people_loop_reach:
  assumes "wf_g gs"
    and "set stack \<subseteq> {0..<length gs}"
    and "\<forall>v \<in> visited. v < length gs \<and> (\<forall>w \<in> gs ! v. w \<in> visited \<or> w \<in> set stack)"
  shows "people_loop gs stack visited = Inr ((edges gs)\<^sup>* `` (visited \<union> set stack))"
  using assms
proof (induction gs stack visited rule: people_loop.induct)
  case (1 gs stack visited)
  show ?case
  proof (cases "stack = []")
    case True
    have "edges gs `` visited \<subseteq> visited"
      using "1.prems"(3) True by (auto simp: edges_def)
    then have "(edges gs)\<^sup>* `` visited = visited"
      by (rule Image_closed_trancl)
    then show ?thesis
      using True by (simp add: people_loop_Nil)
  next
    case False
    define c where "c = last stack"
    define stack1 where "stack1 = butlast stack"
    have stack: "stack = stack1 @ [c]"
      using False by (simp add: c_def stack1_def)
    have c_len: "c < length gs"
      using "1.prems"(2) stack by simp
    show ?thesis
    proof (cases "c \<in> visited")
      case True
      have "people_loop gs stack1 visited = Inr ((edges gs)\<^sup>* `` (visited \<union> set stack1))"
      proof (rule "1.IH"(1) [OF False c_def stack1_def True "1.prems"(1)])
        show "set stack1 \<subseteq> {0..<length gs}"
          using "1.prems"(2) stack by simp
        show "\<forall>v\<in>visited. v < length gs \<and> (\<forall>w\<in>gs ! v. w \<in> visited \<or> w \<in> set stack1)"
          using "1.prems"(3) stack True by auto
      qed
      moreover have "visited \<union> set stack1 = visited \<union> set stack"
        using stack True by auto
      moreover have "people_loop gs stack visited = people_loop gs stack1 visited"
        using True by (simp add: stack people_loop_seen)
      ultimately show ?thesis by simp
    next
      case notin: False
      define new where "new = sorted_list_of_set (gs ! c - insert c visited)"
      have "gs ! c \<subseteq> {0..<length gs}"
        using "1.prems"(1) c_len by (auto simp: wf_g_def)
      then have fin: "finite (gs ! c)"
        by (rule finite_subset) simp
      have set_new: "set new = gs ! c - insert c visited"
        using fin by (simp add: new_def)
      have "people_loop gs (stack1 @ new) (insert c visited)
              = Inr ((edges gs)\<^sup>* `` (insert c visited \<union> set (stack1 @ new)))"
      proof (rule "1.IH"(2) [OF False c_def stack1_def notin c_len "1.prems"(1), folded new_def])
        show "set (stack1 @ new) \<subseteq> {0..<length gs}"
          using "1.prems"(1,2) stack c_len set_new by (auto simp: wf_g_def)
        show "\<forall>v\<in>insert c visited. v < length gs \<and>
                (\<forall>w\<in>gs ! v. w \<in> insert c visited \<or> w \<in> set (stack1 @ new))"
          using "1.prems"(3) stack c_len set_new by auto
      qed
      moreover have "insert c visited \<union> set (stack1 @ new)
                       = (visited \<union> set stack) \<union> (gs ! c - insert c visited)"
        using stack set_new by auto
      moreover have "(edges gs)\<^sup>* `` ((visited \<union> set stack) \<union> (gs ! c - insert c visited))
                       = (edges gs)\<^sup>* `` (visited \<union> set stack)"
      proof (rule rtrancl_Image_absorb)
        show "c \<in> visited \<union> set stack" using stack by simp
        show "gs ! c - insert c visited \<subseteq> edges gs `` {c}"
          using c_len by (auto simp: edges_def)
      qed
      moreover have "people_loop gs stack visited = people_loop gs (stack1 @ new) (insert c visited)"
        using notin c_len by (simp add: stack new_def people_loop_fresh)
      ultimately show ?thesis by simp
    qed
  qed
qed

lemma get_people_next_to_component:
  assumes "wf_g (self_g st)" and "c < length (self_g st)"
  shows "get_people_next_to st c = Inr (component (self_g st) c)"
proof -
  have "people_loop (self_g st) [c] {} = Inr ((edges (self_g st))\<^sup>* `` ({} \<union> set [c]))"
    by (rule people_loop_reach) (use assms in auto)
  moreover have "(edges (self_g st))\<^sup>* `` ({} \<union> set [c]) = component (self_g st) c"
    by (auto simp: component_def connected_def)
  ultimately show ?thesis by (simp add: get_people_next_to_def)
qed

section \<open>Correctness of the split check\<close>

lemma follow_less:
  "links_active cs \<Longrightarrow> a < length cs \<Longrightarrow> follow cs a < length cs"
  by (auto simp: links_active_def follow_def)

lemma follow_int:
  "links_active cs \<Longrightarrow> a < length cs \<Longrightarrow> int (follow cs a) = cs ! a"
  by (auto simp: links_active_def follow_def)

lemma funpow_follow_less:
  "links_active cs \<Longrightarrow> a < length cs \<Longrightarrow> (follow cs ^^ n) a < length cs"
  by (induction n) (auto simp: follow_less)

lemma py_get_nat: "a < length xs \<Longrightarrow> py_get xs (int a) = Inr (xs ! a)"
  by (simp add: py_get_def)

text \<open>Once the walk from \<open>i\<close> runs into a node it has seen, without having come back to
  \<open>i\<close>, it never comes back to \<open>i\<close>.\<close>

lemma walk_never_returns:
  assumes rep: "(f ^^ n) i = (f ^^ k) i" and k: "1 \<le> k" "k < n"
    and away: "\<forall>j \<in> {1..n}. (f ^^ j) i \<noteq> i"
  shows "0 < m \<Longrightarrow> (f ^^ m) (i::nat) \<noteq> i"
proof (induction m rule: less_induct)
  case (less m)
  show ?case
  proof (cases "m \<le> n")
    case True
    then show ?thesis using away less.prems by simp
  next
    case False
    then have m: "m = (m - n) + n" by simp
    have "(f ^^ m) i = (f ^^ (m - n)) ((f ^^ n) i)"
      by (subst m) (simp only: funpow_add o_apply)
    also have "\<dots> = (f ^^ (m - n)) ((f ^^ k) i)"
      by (simp only: rep)
    also have "\<dots> = (f ^^ (m - n + k)) i"
      by (simp only: funpow_add o_apply)
    finally have "(f ^^ m) i = (f ^^ (m - n + k)) i" .
    moreover have "m - n + k < m" "0 < m - n + k"
      using False k by simp_all
    ultimately show ?thesis using less.IH by metis
  qed
qed

lemma is_table_split_loop_walk:
  assumes "links_active cs" and "i < length cs" and "ii = int i"
    and "1 \<le> n"
    and "cur = int ((follow cs ^^ n) i)"
    and "visited = (\<lambda>k. int ((follow cs ^^ k) i)) ` {0..<n}"
    and "\<forall>j \<in> {1..n}. (follow cs ^^ j) i \<noteq> i"
  shows "is_table_split_loop cs ii cur visited = Inr (\<forall>m>0. (follow cs ^^ m) i \<noteq> i)"
  using assms
proof (induction cs ii cur visited arbitrary: n rule: is_table_split_loop.induct)
  case (1 cs ii cur visited)
  note act = "1.prems"(1) and i = "1.prems"(2) and ii = "1.prems"(3) and n = "1.prems"(4)
    and cur = "1.prems"(5) and vis = "1.prems"(6) and away = "1.prems"(7)
  show ?case
  proof (cases "cur \<in> visited")
    case True
    then obtain k where k: "k < n" "(follow cs ^^ n) i = (follow cs ^^ k) i"
      using cur vis by auto
    have "k \<noteq> 0"
      using k(2) away n by (cases "k = 0") auto
    then have "\<forall>m>0. (follow cs ^^ m) i \<noteq> i"
      using walk_never_returns [OF k(2) _ k(1) away] by simp
    then show ?thesis
      using True by (simp add: is_table_split_loop.simps [of cs ii cur visited])
  next
    case False
    define a where "a = (follow cs ^^ n) i"
    have a: "a < length cs"
      using act i by (simp add: a_def funpow_follow_less)
    have get: "py_get cs cur = Inr (int ((follow cs ^^ Suc n) i))"
      using a act by (simp add: cur a_def [symmetric] py_get_nat follow_int)
    show ?thesis
    proof (cases "(follow cs ^^ Suc n) i = i")
      case returned: True
      then have "\<not> (\<forall>m>0. (follow cs ^^ m) i \<noteq> i)"
        by (metis zero_less_Suc)
      then show ?thesis
        using False get returned ii
        by (simp add: is_table_split_loop.simps [of cs ii cur visited])
    next
      case away': False
      have "is_table_split_loop cs ii (int ((follow cs ^^ Suc n) i)) (insert cur visited)
              = Inr (\<forall>m>0. (follow cs ^^ m) i \<noteq> i)"
      proof (rule "1.IH" [OF False get _ act i ii, of "Suc n"])
        show "int ((follow cs ^^ Suc n) i) \<noteq> ii" using away' ii by simp
        show "1 \<le> Suc n" by simp
        show "int ((follow cs ^^ Suc n) i) = int ((follow cs ^^ Suc n) i)" ..
        show "insert cur visited = (\<lambda>k. int ((follow cs ^^ k) i)) ` {0..<Suc n}"
          using cur vis by (auto simp: less_Suc_eq)
        show "\<forall>j\<in>{1..Suc n}. (follow cs ^^ j) i \<noteq> i"
          using away away' by (auto simp: le_Suc_eq)
      qed
      then show ?thesis
        using False get away' ii
        by (simp add: is_table_split_loop.simps [of cs ii cur visited])
    qed
  qed
qed

lemma is_table_split_walk:
  assumes act: "links_active (self_c st)" and i: "i < length (self_c st)"
  shows "is_table_split st i = Inr (\<forall>m>0. (follow (self_c st) ^^ m) i \<noteq> i)"
proof -
  define cs where "cs = self_c st"
  define c0 where "c0 = follow cs i"
  have c0: "c0 < length cs" "int c0 = cs ! i"
    using act i by (simp_all add: c0_def cs_def follow_less follow_int)
  have nth: "py_nth cs i = Inr (int c0)"
    using i c0 by (simp add: py_nth_def cs_def)
  have "py_get cs (int c0) = Inr (cs ! c0)"
    by (rule py_get_nat [OF c0(1)])
  moreover have "cs ! c0 = int (follow cs c0)"
    using follow_int [OF _ c0(1)] act by (simp add: cs_def)
  ultimately have get: "py_get cs (int c0) = Inr (int (follow cs c0))"
    by simp
  show ?thesis
  proof (cases "c0 = i")
    case True
    then have "(follow cs ^^ 1) i = i" by (simp add: c0_def)
    then have "\<not> (\<forall>m>0. (follow cs ^^ m) i \<noteq> i)" by (metis zero_less_one)
    then show ?thesis
      using True nth by (simp add: is_table_split_def cs_def [symmetric])
  next
    case False
    show ?thesis
    proof (cases "follow cs c0 = i")
      case True
      then have "(follow cs ^^ 2) i = i" by (simp add: c0_def numeral_2_eq_2)
      then have "\<not> (\<forall>m>0. (follow cs ^^ m) i \<noteq> i)" by (metis zero_less_numeral)
      then show ?thesis
        using True False nth get by (simp add: is_table_split_def cs_def [symmetric])
    next
      case far: False
      have "is_table_split_loop cs (int i) (int c0) {int i}
              = Inr (\<forall>m>0. (follow cs ^^ m) i \<noteq> i)"
      proof (rule is_table_split_loop_walk [where n = 1])
        show "links_active cs" using act by (simp add: cs_def)
        show "i < length cs" using i by (simp add: cs_def)
        show "int c0 = int ((follow cs ^^ 1) i)" by (simp add: c0_def)
        show "{int i} = (\<lambda>k. int ((follow cs ^^ k) i)) ` {0..<1}" by simp
        show "\<forall>j\<in>{1..1}. (follow cs ^^ j) i \<noteq> i" using False by (simp add: c0_def)
      qed simp_all
      then show ?thesis
        using False far nth get by (simp add: is_table_split_def cs_def [symmetric])
    qed
  qed
qed

section \<open>Connectivity when one undirected edge is added or taken away\<close>

lemma sym_rtrancl_swap: "sym R \<Longrightarrow> (a, b) \<in> R\<^sup>* \<Longrightarrow> (b, a) \<in> R\<^sup>*"
  using sym_rtrancl [of R] by (auto simp: sym_def)

lemma rtrancl_extra_edge:
  "(a, b) \<in> (R \<union> {(x, y), (y, x)})\<^sup>* \<longleftrightarrow>
         (a, b) \<in> R\<^sup>* \<or> ((a, x) \<in> R\<^sup>* \<and> (y, b) \<in> R\<^sup>*) \<or> ((a, y) \<in> R\<^sup>* \<and> (x, b) \<in> R\<^sup>*)"
    (is "?lhs \<longleftrightarrow> ?rhs")
proof
  define R' where "R' = R \<union> {(x, y), (y, x)}"
  have sub: "R\<^sup>* \<subseteq> R'\<^sup>*" unfolding R'_def by (rule rtrancl_mono) blast
  have xy: "(x, y) \<in> R'\<^sup>*" "(y, x) \<in> R'\<^sup>*" unfolding R'_def by auto
  {
    assume ?rhs
    then show ?lhs
    proof (elim disjE conjE)
      assume "(a, b) \<in> R\<^sup>*"
      then show ?thesis using sub unfolding R'_def by blast
    next
      assume "(a, x) \<in> R\<^sup>*" "(y, b) \<in> R\<^sup>*"
      then have "(a, x) \<in> R'\<^sup>*" "(y, b) \<in> R'\<^sup>*" using sub by blast+
      then have "(a, b) \<in> R'\<^sup>*" using xy(1) by (meson rtrancl_trans)
      then show ?thesis unfolding R'_def .
    next
      assume "(a, y) \<in> R\<^sup>*" "(x, b) \<in> R\<^sup>*"
      then have "(a, y) \<in> R'\<^sup>*" "(x, b) \<in> R'\<^sup>*" using sub by blast+
      then have "(a, b) \<in> R'\<^sup>*" using xy(2) by (meson rtrancl_trans)
      then show ?thesis unfolding R'_def .
    qed
  }
  {
    assume ?lhs
    then have "(a, b) \<in> R'\<^sup>*" unfolding R'_def .
    then show ?rhs
    proof (induction rule: rtrancl_induct)
      case base
      show ?case by simp
    next
      case (step u v)
      from step.hyps(2) consider "(u, v) \<in> R" | "u = x" "v = y" | "u = y" "v = x"
        unfolding R'_def by blast
      then show ?case
      proof cases
        case 1
        then show ?thesis using step.IH by (meson rtrancl.rtrancl_into_rtrancl)
      next
        case 2
        from step.IH show ?thesis
        proof (elim disjE conjE)
          assume "(a, u) \<in> R\<^sup>*"
          then show ?thesis using 2 by simp
        next
          assume "(a, x) \<in> R\<^sup>*" "(y, u) \<in> R\<^sup>*"
          then show ?thesis using 2 by simp
        next
          assume "(a, y) \<in> R\<^sup>*" "(x, u) \<in> R\<^sup>*"
          then show ?thesis using 2 by simp
        qed
      next
        case 3
        from step.IH show ?thesis
        proof (elim disjE conjE)
          assume "(a, u) \<in> R\<^sup>*"
          then show ?thesis using 3 by simp
        next
          assume "(a, x) \<in> R\<^sup>*" "(y, u) \<in> R\<^sup>*"
          then show ?thesis using 3 by simp
        next
          assume "(a, y) \<in> R\<^sup>*" "(x, u) \<in> R\<^sup>*"
          then show ?thesis using 3 by simp
        qed
      qed
    qed
  }
qed

lemma rtrancl_self_loop: "(insert (x, x) R)\<^sup>* = R\<^sup>*"
proof
  have "insert (x, x) R \<subseteq> R\<^sup>*" by auto
  then have "(insert (x, x) R)\<^sup>* \<subseteq> (R\<^sup>*)\<^sup>*" by (rule rtrancl_mono)
  then show "(insert (x, x) R)\<^sup>* \<subseteq> R\<^sup>*" by simp
  show "R\<^sup>* \<subseteq> (insert (x, x) R)\<^sup>*" by (rule rtrancl_mono) blast
qed

section \<open>What the two mutations return\<close>

lemma add_assignment_fields:
  assumes sz: "sizes_ok st" and i: "i < self_N st" and t: "t < self_N st"
  defines "z_i \<equiv> mixture_z st ! i" and "z_t \<equiv> mixture_z st ! t"
  shows "\<exists>st'. add_assignment st i t = Inr st' \<and>
           self_N st' = self_N st \<and>
           self_c st' = (self_c st)[i := int t] \<and>
           (\<forall>a < self_N st. self_g st' ! a =
              self_g st ! a \<union> (if a = i then {t} else {}) \<union> (if a = t then {i} else {})) \<and>
           length (self_g st') = self_N st \<and>
           mixture_z st' =
             (if z_i \<noteq> z_t then mixture_merge (min z_i z_t) (max z_i z_t) (mixture_z st)
              else mixture_z st) \<and>
           reusable_numbers st' =
             (if z_i \<noteq> z_t then put_nowait (max z_i z_t) (reusable_numbers st)
              else reusable_numbers st) \<and>
           self_K st' = (if z_i \<noteq> z_t then self_K st - 1 else self_K st) \<and>
           self_K_max st' = self_K_max st \<and> self_alpha st' = self_alpha st \<and>
           self_f st' = self_f st \<and> self_ids st' = self_ids st \<and>
           self_timestamps st' = self_timestamps st \<and>
           self_likelihood_cache st' = self_likelihood_cache st"
proof -
  have len: "length (self_c st) = self_N st" "length (self_g st) = self_N st"
    "length (mixture_z st) = self_N st"
    using sz by (simp_all add: sizes_ok_def)
  have zi: "py_nth (mixture_z st) i = Inr z_i" and zt: "py_nth (mixture_z st) t = Inr z_t"
    using i t len by (simp_all add: py_nth_def z_i_def z_t_def)
  show ?thesis
  proof (cases "z_i = z_t")
    case True
    then show ?thesis
      using i t len zi zt
      by (auto simp: add_assignment_def py_store_def py_nth_def Let_def nth_list_update)
  next
    case False
    then show ?thesis
      using i t len zi zt
      by (auto simp: add_assignment_def py_store_def py_nth_def Let_def nth_list_update
            min_def max_def)
  qed
qed


section \<open>The invariant of the link graph\<close>

lemma edges_of_links:
  assumes "sizes_ok st" and "graph_of_links st"
  shows "edges (self_g st) =
           {(a, b). a < self_N st \<and> b < self_N st \<and>
                    (self_c st ! a = int b \<or> self_c st ! b = int a)}"
  using assms by (auto simp: edges_def sizes_ok_def graph_of_links_def)

lemma wf_g_of_links:
  assumes "sizes_ok st" and "graph_of_links st"
  shows "wf_g (self_g st)"
  using assms by (auto simp: wf_g_def sizes_ok_def graph_of_links_def)

lemma connected_sym:
  assumes "sizes_ok st" and "graph_of_links st" and "connected (self_g st) a b"
  shows "connected (self_g st) b a"
proof -
  have "sym (edges (self_g st))"
    unfolding edges_of_links [OF assms(1,2)] by (auto simp: sym_def)
  then show ?thesis
    using assms(3) unfolding connected_def by (rule sym_rtrancl_swap)
qed

lemma connected_trans:
  "connected gs a b \<Longrightarrow> connected gs b c \<Longrightarrow> connected gs a c"
  unfolding connected_def by (rule rtrancl_trans)

lemma connected_refl: "connected gs a a"
  by (simp add: connected_def)

lemma mixture_merge_nth:
  "a < length zs \<Longrightarrow>
     mixture_merge lo hi zs ! a = (if zs ! a = hi then lo else zs ! a)"
  by (simp add: mixture_merge_def)

lemma mixture_merge_set:
  "lo \<in> set zs \<Longrightarrow> lo \<noteq> hi \<Longrightarrow> set (mixture_merge lo hi zs) = set zs - {hi}"
  by (auto simp: mixture_merge_def)

lemma add_assignment_inv:
  assumes inv: "pending_inv i st" and t: "t < self_N st"
    and run: "add_assignment st i t = Inr st'"
  shows "stable_inv st'"
proof -
  define n where "n = self_N st"
  define z_i where "z_i = mixture_z st ! i"
  define z_t where "z_t = mixture_z st ! t"
  have sz: "sizes_ok st" and gl: "graph_of_links st" and cc: "components_are_clusters st"
    and pool: "pool_ok st" and i: "i < n" and ci: "self_c st ! i = - 1"
    and others: "\<forall>a < n. a \<noteq> i \<longrightarrow> 0 \<le> self_c st ! a \<and> self_c st ! a < int n"
    using inv by (simp_all add: pending_inv_def state_inv_def n_def)
  have len: "length (self_c st) = n" "length (self_g st) = n" "length (mixture_z st) = n"
    using sz by (simp_all add: sizes_ok_def n_def)
  from add_assignment_fields [OF sz i [unfolded n_def] t] run
  have N': "self_N st' = n"
    and c': "self_c st' = (self_c st)[i := int t]"
    and g': "\<forall>a < n. self_g st' ! a =
              self_g st ! a \<union> (if a = i then {t} else {}) \<union> (if a = t then {i} else {})"
    and lg': "length (self_g st') = n"
    and z': "mixture_z st' =
             (if z_i \<noteq> z_t then mixture_merge (min z_i z_t) (max z_i z_t) (mixture_z st)
              else mixture_z st)"
    and p': "reusable_numbers st' =
             (if z_i \<noteq> z_t then put_nowait (max z_i z_t) (reusable_numbers st)
              else reusable_numbers st)"
    by (auto simp: n_def z_i_def z_t_def)
  have tn: "t < n" using t by (simp add: n_def)
  have sz': "sizes_ok st'"
    using N' c' lg' z' len by (simp add: sizes_ok_def mixture_merge_def)
  have gl': "graph_of_links st'"
    unfolding graph_of_links_def N'
  proof (intro allI impI)
    fix a assume a: "a < n"
    have "self_g st ! a = {b. b < n \<and> (self_c st ! a = int b \<or> self_c st ! b = int a)}"
      using gl a by (simp add: graph_of_links_def n_def)
    then show "self_g st' ! a =
        {b. b < n \<and> (self_c st' ! a = int b \<or> self_c st' ! b = int a)}"
      using g' a c' ci i tn len by (auto simp: nth_list_update split: if_splits)
  qed
  have e': "edges (self_g st') = edges (self_g st) \<union> {(i, t), (t, i)}"
    unfolding edges_of_links [OF sz' gl'] edges_of_links [OF sz gl] N' n_def [symmetric] c'
    using ci i tn len by (auto simp: nth_list_update split: if_splits)
  have act': "links_active (self_c st')"
    using others i tn len by (auto simp: links_active_def c' nth_list_update)
  have conn: "connected (self_g st) a b \<longleftrightarrow> mixture_z st ! a = mixture_z st ! b"
    if "a < n" "b < n" for a b
    using cc that by (simp add: components_are_clusters_def n_def)
  have cc': "components_are_clusters st'"
    unfolding components_are_clusters_def N'
  proof (intro allI impI)
    fix a b assume a: "a < n" and b: "b < n"
    have "connected (self_g st') a b \<longleftrightarrow>
            connected (self_g st) a b \<or>
            (connected (self_g st) a i \<and> connected (self_g st) t b) \<or>
            (connected (self_g st) a t \<and> connected (self_g st) i b)"
      unfolding connected_def e' by (rule rtrancl_extra_edge)
    also have "\<dots> \<longleftrightarrow>
            mixture_z st ! a = mixture_z st ! b \<or>
            (mixture_z st ! a = z_i \<and> z_t = mixture_z st ! b) \<or>
            (mixture_z st ! a = z_t \<and> z_i = mixture_z st ! b)"
      using conn a b i tn by (simp add: z_i_def z_t_def)
    also have "\<dots> \<longleftrightarrow> mixture_z st' ! a = mixture_z st' ! b"
      using a b len by (auto simp: z' mixture_merge_nth min_def max_def)
    finally show "connected (self_g st') a b \<longleftrightarrow> mixture_z st' ! a = mixture_z st' ! b" .
  qed
  have zi_in: "z_i \<in> set (mixture_z st)" and zt_in: "z_t \<in> set (mixture_z st)"
    using i tn len by (simp_all add: z_i_def z_t_def)
  have pool': "pool_ok st'"
  proof (cases "z_i = z_t")
    case True
    then show ?thesis using pool by (simp add: pool_ok_def z' p')
  next
    case False
    have "min z_i z_t \<in> set (mixture_z st)" "max z_i z_t \<in> set (mixture_z st)"
      using zi_in zt_in by (simp_all add: min_def max_def)
    moreover have "min z_i z_t \<noteq> max z_i z_t" using False by (simp add: min_def max_def)
    ultimately show ?thesis
      using pool False
      by (auto simp: pool_ok_def z' p' put_nowait_def mixture_merge_set)
  qed
  show ?thesis
    using sz' gl' cc' pool' act' by (simp add: stable_inv_def state_inv_def)
qed

section \<open>Taking a link away\<close>

lemma remove_from_graph_spec:
  assumes sz: "sizes_ok st" and gl: "graph_of_links st" and act: "links_active (self_c st)"
    and i: "i < self_N st"
  shows "remove_from_graph (self_g st) i (self_c st ! i) (self_c st ! follow (self_c st) i)
           = Inr (removeLink_spec (self_g st) (self_c st) i)"
proof -
  define cs where "cs = self_c st"
  define gs where "gs = self_g st"
  define t where "t = follow cs i"
  have len: "length cs = self_N st" "length gs = self_N st"
    using sz by (simp_all add: sizes_ok_def cs_def gs_def)
  have t: "t < self_N st" "cs ! i = int t"
    using follow_less [of cs i] follow_int [of cs i] act i len
    by (simp_all add: t_def cs_def)
  have gi: "gs ! i = {b. b < self_N st \<and> (cs ! i = int b \<or> cs ! b = int i)}"
    and gt: "gs ! t = {b. b < self_N st \<and> (cs ! t = int b \<or> cs ! b = int t)}"
    using gl i t(1) by (simp_all add: graph_of_links_def cs_def gs_def)
  have t_in: "t \<in> gs ! i" and i_in: "i \<in> gs ! t"
    using gi gt t i by simp_all
  have nth_i: "py_nth gs i = Inr (gs ! i)"
    using i len by (simp add: py_nth_def)
  show ?thesis
  proof (cases "t = i")
    case True
    then show ?thesis
      using t t_in nth_i
      by (simp add: remove_from_graph_def removeLink_spec_def set_remove_def
            cs_def [symmetric] gs_def [symmetric] t_def [symmetric])
  next
    case False
    show ?thesis
    proof (cases "cs ! t = int i")
      case True
      then show ?thesis
        using False t
        by (simp add: remove_from_graph_def removeLink_spec_def
              cs_def [symmetric] gs_def [symmetric] t_def [symmetric])
    next
      case far: False
      have "py_get (gs[i := gs ! i - {t}]) (int t) = Inr (gs ! t)"
        using t(1) len False by (simp add: py_get_nat)
      then show ?thesis
        using False far t t_in i_in nth_i
        by (simp add: remove_from_graph_def removeLink_spec_def set_remove_def Let_def
              cs_def [symmetric] gs_def [symmetric] t_def [symmetric])
    qed
  qed
qed


text \<open>The state right after the link of \<open>i\<close> has been taken out of both graphs, before
  a split is carried out.\<close>

lemma unlinked_state:
  assumes sz: "sizes_ok st" and gl: "graph_of_links st" and act: "links_active (self_c st)"
    and i: "i < self_N st"
  defines "st1 \<equiv> st\<lparr>self_g := removeLink_spec (self_g st) (self_c st) i,
                       self_c := (self_c st)[i := - 1]\<rparr>"
  shows "sizes_ok st1" and "graph_of_links st1"
    and "edges (self_g st) = edges (self_g st1) \<union> {(i, follow (self_c st) i), (follow (self_c st) i, i)}"
proof -
  define cs where "cs = self_c st"
  define gs where "gs = self_g st"
  define n where "n = self_N st"
  define t where "t = follow cs i"
  have len: "length cs = n" "length gs = n"
    using sz by (simp_all add: sizes_ok_def cs_def gs_def n_def)
  have i': "i < n" using i by (simp add: n_def)
  have t: "t < n" "cs ! i = int t"
    using follow_less [of cs i] follow_int [of cs i] act i' len
    by (simp_all add: t_def cs_def)
  have nonneg: "0 \<le> cs ! a" if "a < n" for a
    using act that len by (simp add: links_active_def cs_def)
  have g: "gs ! a = {b. b < n \<and> (cs ! a = int b \<or> cs ! b = int a)}" if "a < n" for a
    using gl that by (simp add: graph_of_links_def cs_def gs_def n_def)
  have N1: "self_N st1 = n" and c1: "self_c st1 = cs[i := - 1]"
    and g1: "self_g st1 = removeLink_spec gs cs i"
    by (simp_all add: st1_def n_def cs_def gs_def)
  have lg1: "length (self_g st1) = n"
    using len by (simp add: g1 removeLink_spec_def Let_def)
  show sz1: "sizes_ok st1"
    using sz len lg1 by (simp add: sizes_ok_def st1_def cs_def n_def)
  have spec: "removeLink_spec gs cs i =
      (if t = i then gs[i := gs ! i - {i}]
       else if cs ! t = int i then gs
       else gs[i := gs ! i - {t}, t := gs ! t - {i}])"
    by (simp add: removeLink_spec_def Let_def t_def)
  have mem: "b \<in> gs ! a \<longleftrightarrow> b < n \<and> (cs ! a = int b \<or> cs ! b = int a)" if "a < n" for a b
    using g [OF that] by simp
  have upd: "cs[i := - 1] ! a = (if a = i then - 1 else cs ! a)" if "a < n" for a
    using that len by (simp add: nth_list_update)
  show gl1: "graph_of_links st1"
    unfolding graph_of_links_def N1 c1 g1
  proof (intro allI impI set_eqI)
    fix a b assume a: "a < n"
    have nth1: "removeLink_spec gs cs i ! a =
        (if t = i then (if a = i then gs ! i - {i} else gs ! a)
         else if cs ! t = int i then gs ! a
         else if a = t then gs ! t - {i}
         else if a = i then gs ! i - {t}
         else gs ! a)"
      using a i' t(1) len by (simp add: spec nth_list_update)
    show "b \<in> removeLink_spec gs cs i ! a \<longleftrightarrow>
            b \<in> {b. b < n \<and> (cs[i := - 1] ! a = int b \<or> cs[i := - 1] ! b = int a)}"
    proof (cases "b < n")
      case False
      then show ?thesis
        using a i' t(1) by (simp add: nth1 mem)
    next
      case True
      have ti: "cs ! i = int t" by (rule t(2))
      show ?thesis
        unfolding nth1 mem_Collect_eq upd [OF a] upd [OF True]
        using a True i' t(1) ti nonneg [OF a] nonneg [OF True]
        by (simp add: mem) (metis int_int_eq)
    qed
  qed
  have "edges gs = edges (self_g st1) \<union> {(i, t), (t, i)}"
  proof -
    have e: "edges gs = {(a, b). a < n \<and> b < n \<and> (cs ! a = int b \<or> cs ! b = int a)}"
      using edges_of_links [OF sz gl] by (simp add: cs_def gs_def n_def)
    have e1: "edges (self_g st1) =
        {(a, b). a < n \<and> b < n \<and> (cs[i := - 1] ! a = int b \<or> cs[i := - 1] ! b = int a)}"
      using edges_of_links [OF sz1 gl1] by (simp add: N1 c1)
    show ?thesis
    proof (intro set_eqI iffI)
      fix p assume p: "p \<in> edges gs"
      obtain a b where [simp]: "p = (a, b)" by (cases p)
      from p have "(a, b) \<in> edges gs" by simp
      then have ab: "a < n" "b < n" "cs ! a = int b \<or> cs ! b = int a"
        by (simp_all add: e)
      have "(a, b) \<in> edges (self_g st1) \<union> {(i, t), (t, i)}"
        using ab t(2) by (auto simp: e1 upd)
      then show "p \<in> edges (self_g st1) \<union> {(i, t), (t, i)}" by simp
    next
      fix p assume p: "p \<in> edges (self_g st1) \<union> {(i, t), (t, i)}"
      obtain a b where [simp]: "p = (a, b)" by (cases p)
      from p have "(a, b) \<in> edges (self_g st1) \<union> {(i, t), (t, i)}" by simp
      then consider "(a, b) \<in> edges (self_g st1)" | "a = i" "b = t" | "a = t" "b = i"
        by blast
      then have "(a, b) \<in> edges gs"
      proof cases
        case 1
        then have ab: "a < n" "b < n" by (simp_all add: e1)
        then show ?thesis using 1 by (auto simp: e e1 upd split: if_splits)
      next
        case 2
        then show ?thesis using i' t by (simp add: e)
      next
        case 3
        then show ?thesis using i' t by (simp add: e)
      qed
      then show "p \<in> edges gs" by simp
    qed
  qed
  then show "edges (self_g st) = edges (self_g st1) \<union>
      {(i, follow (self_c st) i), (follow (self_c st) i, i)}"
    by (simp add: gs_def t_def cs_def)
qed

lemma walk_connected:
  assumes sz1: "sizes_ok st1" and gl1: "graph_of_links st1"
    and act: "links_active cs" and len: "length cs = self_N st1" and i: "i < self_N st1"
    and c1: "self_c st1 = cs[i := - 1]"
    and away: "\<forall>j \<in> {1..<m}. (follow cs ^^ j) i \<noteq> i"
  shows "1 \<le> j \<Longrightarrow> j \<le> m \<Longrightarrow> connected (self_g st1) (follow cs i) ((follow cs ^^ j) i)"
proof (induction j)
  case 0
  then show ?case by simp
next
  case (Suc j)
  show ?case
  proof (cases "j = 0")
    case True
    then show ?thesis by (simp add: connected_refl)
  next
    case False
    define a where "a = (follow cs ^^ j) i"
    have j: "1 \<le> j" "j < m" using False Suc.prems by simp_all
    have a_ne: "a \<noteq> i" using away j by (simp add: a_def)
    have a_lt: "a < self_N st1"
      using funpow_follow_less [OF act, of i j] i len by (simp add: a_def)
    have fa: "follow cs a < self_N st1" "cs ! a = int (follow cs a)"
      using follow_less [OF act, of a] follow_int [OF act, of a] a_lt len by simp_all
    have "(a, follow cs a) \<in> edges (self_g st1)"
      unfolding edges_of_links [OF sz1 gl1] c1
      using a_ne a_lt fa by simp
    then have "connected (self_g st1) a (follow cs a)"
      by (auto simp: connected_def)
    moreover have "connected (self_g st1) (follow cs i) a"
      using Suc.IH j by (simp add: a_def)
    ultimately have "connected (self_g st1) (follow cs i) (follow cs a)"
      by (rule connected_trans [rotated])
    then show ?thesis by (simp add: a_def)
  qed
qed

lemma cycle_survives:
  assumes sz1: "sizes_ok st1" and gl1: "graph_of_links st1"
    and act: "links_active cs" and len: "length cs = self_N st1" and i: "i < self_N st1"
    and c1: "self_c st1 = cs[i := - 1]"
    and cyc: "\<exists>m>0. (follow cs ^^ m) i = i"
  shows "connected (self_g st1) (follow cs i) i"
proof -
  define m where "m = (LEAST m. 0 < m \<and> (follow cs ^^ m) i = i)"
  have m: "0 < m \<and> (follow cs ^^ m) i = i"
    unfolding m_def using cyc by (rule LeastI_ex)
  have "\<forall>j \<in> {1..<m}. (follow cs ^^ j) i \<noteq> i"
  proof
    fix j assume "j \<in> {1..<m}"
    then have "j < m" "0 < j" by simp_all
    then show "(follow cs ^^ j) i \<noteq> i"
      using not_less_Least [of j "\<lambda>m. 0 < m \<and> (follow cs ^^ m) i = i"]
      by (auto simp: m_def)
  qed
  then have "connected (self_g st1) (follow cs i) ((follow cs ^^ m) i)"
    using m by (intro walk_connected [OF sz1 gl1 act len i c1, of m]) simp_all
  then show ?thesis using m by simp
qed

lemma mixture_split_nth:
  "a < length zs \<Longrightarrow>
     mixture_split old_id new_id members zs ! a = (if a \<in> members then new_id else zs ! a)"
  by (simp add: mixture_split_def)

lemma mixture_split_length: "length (mixture_split old_id new_id members zs) = length zs"
  by (simp add: mixture_split_def)

lemma mixture_split_set:
  "set (mixture_split old_id new_id members zs) \<subseteq> insert new_id (set zs)"
  by (auto simp: mixture_split_def)

lemma remove_assignment_result:
  assumes inv: "stable_inv st" and i: "i < self_N st"
    and st1_def: "st1 = st\<lparr>self_g := removeLink_spec (self_g st) (self_c st) i,
                       self_c := (self_c st)[i := - 1]\<rparr>"
    and never_def: "never \<longleftrightarrow> (\<forall>m>0. (follow (self_c st) ^^ m) i \<noteq> i)"
  shows "remove_assignment st i =
     (if never then
        (case reusable_numbers st of
           [] \<Rightarrow> Inl QueueEmpty
         | k # rest \<Rightarrow>
             Inr (st1\<lparr>reusable_numbers := rest,
                      mixture_z := mixture_split (mixture_z st ! i) k
                                     (component (self_g st1) i) (mixture_z st),
                      self_K := self_K st + 1\<rparr>))
      else Inr st1)"
proof -
  have sz: "sizes_ok st" and gl: "graph_of_links st" and act: "links_active (self_c st)"
    using inv by (simp_all add: stable_inv_def state_inv_def)
  have len: "length (self_c st) = self_N st" "length (self_g st) = self_N st"
    "length (mixture_z st) = self_N st"
    using sz by (simp_all add: sizes_ok_def)
  define t where "t = follow (self_c st) i"
  have t: "t < self_N st" "self_c st ! i = int t"
    using follow_less [OF act, of i] follow_int [OF act, of i] i len by (simp_all add: t_def)
  have split: "is_table_split st i = Inr (\<forall>m>0. (follow (self_c st) ^^ m) i \<noteq> i)"
    using is_table_split_walk [OF act] i len by simp
  have nth: "py_nth (self_c st) i = Inr (int t)"
    using i len t by (simp add: py_nth_def)
  have get: "py_get (self_c st) (int t) = Inr (self_c st ! t)"
    using t(1) len by (simp add: py_get_nat)
  have graph: "remove_from_graph (self_g st) i (int t) (self_c st ! t)
                 = Inr (removeLink_spec (self_g st) (self_c st) i)"
    using remove_from_graph_spec [OF sz gl act i] t by (simp add: t_def)
  have sz1: "sizes_ok st1" and gl1: "graph_of_links st1"
    using unlinked_state(1,2) [OF sz gl act i] by (simp_all add: st1_def)
  have people: "get_people_next_to (st1\<lparr>reusable_numbers := rest\<rparr>) i
                  = Inr (component (self_g st1) i)" for rest
  proof -
    have "wf_g (self_g (st1\<lparr>reusable_numbers := rest\<rparr>))"
      using wf_g_of_links [OF sz1 gl1] by simp
    moreover have "i < length (self_g (st1\<lparr>reusable_numbers := rest\<rparr>))"
      using sz1 i by (simp add: sizes_ok_def st1_def)
    ultimately show ?thesis
      using get_people_next_to_component [of "st1\<lparr>reusable_numbers := rest\<rparr>" i] by simp
  qed
  have zi: "py_nth (mixture_z st1) i = Inr (mixture_z st ! i)"
    using i len by (simp add: py_nth_def st1_def)
  have split': "is_table_split st i = Inr never"
    by (simp add: split never_def)
  show ?thesis
  proof (cases never)
    case False
    then show ?thesis
      by (simp add: remove_assignment_def split' nth get graph Let_def st1_def)
  next
    case True
    show ?thesis
    proof (cases "reusable_numbers st")
      case Nil
      then show ?thesis
        using True
        by (simp add: remove_assignment_def split' nth get graph Let_def
              get_new_cluster_number_def pool_get_def)
    next
      case (Cons k rest)
      have new: "get_new_cluster_number st1 = Inr (k, st1\<lparr>reusable_numbers := rest\<rparr>)"
        using Cons by (simp add: get_new_cluster_number_def pool_get_def st1_def)
      have "remove_assignment st i =
          Inr (st1\<lparr>reusable_numbers := rest\<rparr>
                 \<lparr>mixture_z := mixture_split (mixture_z st ! i) k (component (self_g st1) i)
                                (mixture_z (st1\<lparr>reusable_numbers := rest\<rparr>)),
                  self_K := self_K (st1\<lparr>reusable_numbers := rest\<rparr>) + 1\<rparr>)"
        using True
        by (simp add: remove_assignment_def split' nth get graph Let_def
              st1_def [symmetric] new zi people)
      then show ?thesis
        using True Cons by (simp add: st1_def)
    qed
  qed
qed


lemma remove_assignment_inv:
  assumes inv: "stable_inv st" and i: "i < self_N st"
    and run: "remove_assignment st i = Inr st'"
  shows "pending_inv i st'"
proof -
  define n where "n = self_N st"
  define cs where "cs = self_c st"
  define t where "t = follow cs i"
  define st1 where "st1 = st\<lparr>self_g := removeLink_spec (self_g st) (self_c st) i,
                               self_c := (self_c st)[i := - 1]\<rparr>"
  define never where "never \<longleftrightarrow> (\<forall>m>0. (follow cs ^^ m) i \<noteq> i)"
  have sz: "sizes_ok st" and gl: "graph_of_links st" and act: "links_active cs"
    and cc: "components_are_clusters st" and pool: "pool_ok st"
    using inv by (simp_all add: stable_inv_def state_inv_def cs_def)
  have len: "length cs = n" "length (self_g st) = n" "length (mixture_z st) = n"
    using sz by (simp_all add: sizes_ok_def n_def cs_def)
  have i': "i < n" using i by (simp add: n_def)
  have sz1: "sizes_ok st1" and gl1: "graph_of_links st1"
    and e: "edges (self_g st) = edges (self_g st1) \<union> {(i, t), (t, i)}"
    using unlinked_state [OF sz gl act [unfolded cs_def] i]
    by (simp_all add: st1_def t_def cs_def)
  have N1: "self_N st1 = n" and c1: "self_c st1 = cs[i := - 1]"
    and z1: "mixture_z st1 = mixture_z st" and p1: "reusable_numbers st1 = reusable_numbers st"
    by (simp_all add: st1_def n_def cs_def)
  have lg1: "length (self_g st1) = n"
    using sz1 by (simp add: sizes_ok_def N1)
  have pend1: "self_c st1 ! i = - 1"
    "\<forall>a < n. a \<noteq> i \<longrightarrow> 0 \<le> self_c st1 ! a \<and> self_c st1 ! a < int n"
    using act i' len by (auto simp: c1 links_active_def)
  have conn: "connected (self_g st) a b \<longleftrightarrow> mixture_z st ! a = mixture_z st ! b"
    if "a < n" "b < n" for a b
    using cc that by (simp add: components_are_clusters_def n_def)
  have old: "connected (self_g st) a b \<longleftrightarrow>
               connected (self_g st1) a b \<or>
               (connected (self_g st1) a i \<and> connected (self_g st1) t b) \<or>
               (connected (self_g st1) a t \<and> connected (self_g st1) i b)" for a b
    unfolding connected_def e by (rule rtrancl_extra_edge)
  have sym1: "connected (self_g st1) a b \<Longrightarrow> connected (self_g st1) b a" for a b
    by (rule connected_sym [OF sz1 gl1])
  have res: "remove_assignment st i =
     (if never then
        (case reusable_numbers st of
           [] \<Rightarrow> Inl QueueEmpty
         | k # rest \<Rightarrow>
             Inr (st1\<lparr>reusable_numbers := rest,
                      mixture_z := mixture_split (mixture_z st ! i) k
                                     (component (self_g st1) i) (mixture_z st),
                      self_K := self_K st + 1\<rparr>))
      else Inr st1)"
    by (rule remove_assignment_result [OF inv i st1_def never_def [unfolded cs_def]])
  show ?thesis
  proof (cases never)
    case False
    then have st': "st' = st1" using res run by simp
    have "\<exists>m>0. (follow cs ^^ m) i = i" using False by (auto simp: never_def)
    then have ti: "connected (self_g st1) t i"
      unfolding t_def
      by (intro cycle_survives [OF sz1 gl1 act _ _ c1]) (simp_all add: N1 len i')
    have same: "connected (self_g st1) a b \<longleftrightarrow> connected (self_g st) a b" for a b
      unfolding old [of a b]
      using ti sym1 [OF ti] connected_trans by blast
    have "components_are_clusters st1"
      unfolding components_are_clusters_def N1 z1 using conn same by simp
    moreover have "pool_ok st1" using pool by (simp add: pool_ok_def z1 p1)
    ultimately show ?thesis
      using sz1 gl1 pend1 i' by (simp add: pending_inv_def state_inv_def st' N1)
  next
    case True
    then obtain k rest where pool_eq: "reusable_numbers st = k # rest"
      using res run by (cases "reusable_numbers st") simp_all
    define comp where "comp = component (self_g st1) i"
    have st': "st' = st1\<lparr>reusable_numbers := rest,
                          mixture_z := mixture_split (mixture_z st ! i) k comp (mixture_z st),
                          self_K := self_K st + 1\<rparr>"
      using res run True pool_eq by (simp add: comp_def)
    have N': "self_N st' = n" and c': "self_c st' = self_c st1" and g': "self_g st' = self_g st1"
      and z': "mixture_z st' = mixture_split (mixture_z st ! i) k comp (mixture_z st)"
      and p': "reusable_numbers st' = rest"
      by (simp_all add: st' N1)
    have k_new: "k \<notin> set (mixture_z st)" and k_rest: "k \<notin> set rest" and d_rest: "distinct rest"
      and rest_z: "set rest \<inter> set (mixture_z st) = {}"
      using pool pool_eq by (auto simp: pool_ok_def)
    have sz': "sizes_ok st'"
      using sz1 by (simp add: sizes_ok_def st' mixture_split_length z1 [symmetric])
    have gl': "graph_of_links st'"
      using gl1 by (simp add: graph_of_links_def st')
    have z'_nth: "mixture_z st' ! a = (if a \<in> comp then k else mixture_z st ! a)"
      if "a < n" for a
      using that len by (simp add: z' mixture_split_nth)
    have z_ne: "mixture_z st ! a \<noteq> k" "k \<noteq> mixture_z st ! a" if "a < n" for a
      using k_new that len by (metis nth_mem)+
    have in_comp: "a \<in> comp \<longleftrightarrow> connected (self_g st1) i a" for a
      by (simp add: comp_def component_def)
    have cc': "components_are_clusters st'"
      unfolding components_are_clusters_def N' g'
    proof (intro allI impI)
      fix a b assume a: "a < n" and b: "b < n"
      show "connected (self_g st1) a b \<longleftrightarrow> mixture_z st' ! a = mixture_z st' ! b"
      proof (cases "a \<in> comp")
        case a_in: True
        show ?thesis
        proof (cases "b \<in> comp")
          case True
          then have "connected (self_g st1) a b"
            using a_in sym1 connected_trans unfolding in_comp by blast
          then show ?thesis using a_in True a b by (simp add: z'_nth)
        next
          case False
          then have "\<not> connected (self_g st1) a b"
            using a_in connected_trans unfolding in_comp by blast
          then show ?thesis using a_in False a b z_ne by (auto simp: z'_nth)
        qed
      next
        case a_out: False
        show ?thesis
        proof (cases "b \<in> comp")
          case True
          then have "\<not> connected (self_g st1) a b"
            using a_out sym1 connected_trans unfolding in_comp by blast
          then show ?thesis using a_out True a b z_ne by (auto simp: z'_nth)
        next
          case False
          have "connected (self_g st1) a b \<longleftrightarrow> connected (self_g st) a b"
            unfolding old [of a b]
            using a_out False sym1 unfolding in_comp by blast
          then show ?thesis using a_out False a b conn by (simp add: z'_nth)
        qed
      qed
    qed
    have pool': "pool_ok st'"
      using mixture_split_set [of "mixture_z st ! i" k comp "mixture_z st"]
        d_rest k_rest rest_z
      by (auto simp: pool_ok_def z' p')
    show ?thesis
      using sz' gl' cc' pool' pend1 i'
      by (simp add: pending_inv_def state_inv_def N' c')
  qed
qed

section \<open>Ingestion of a customer\<close>

lemma append_customer_result:
  "append_customer st doc_id =
     (case reusable_numbers st of
        [] \<Rightarrow> Inl QueueEmpty
      | k # rest \<Rightarrow>
          Inr (st\<lparr>self_ids := self_ids st @ [doc_id],
                  self_c := self_c st @ [int (self_N st)],
                  self_g := self_g st @ [{self_N st}],
                  reusable_numbers := rest,
                  mixture_z := mixture_z st @ [k],
                  self_N := self_N st + 1,
                  self_K := self_K st + 1\<rparr>))"
  by (simp add: append_customer_def get_new_cluster_number_def pool_get_def Let_def
        mixture_new_vector_def split: list.splits)

lemma rtrancl_outside_Domain: "(a, b) \<in> R\<^sup>* \<Longrightarrow> a \<notin> Domain R \<Longrightarrow> b = a"
  by (erule converse_rtranclE) auto

lemma rtrancl_outside_Range: "(a, b) \<in> R\<^sup>* \<Longrightarrow> b \<notin> Range R \<Longrightarrow> a = b"
  by (erule rtranclE) auto

lemma append_customer_inv:
  assumes inv: "stable_inv st" and run: "append_customer st doc_id = Inr st'"
  shows "stable_inv st'"
proof -
  define n where "n = self_N st"
  have sz: "sizes_ok st" and gl: "graph_of_links st" and act: "links_active (self_c st)"
    and cc: "components_are_clusters st" and pool: "pool_ok st"
    using inv by (simp_all add: stable_inv_def state_inv_def)
  have len: "length (self_c st) = n" "length (self_g st) = n" "length (mixture_z st) = n"
    using sz by (simp_all add: sizes_ok_def n_def)
  obtain k rest where pool_eq: "reusable_numbers st = k # rest"
    using run by (cases "reusable_numbers st") (simp_all add: append_customer_result)
  have N': "self_N st' = Suc n" and c': "self_c st' = self_c st @ [int n]"
    and g': "self_g st' = self_g st @ [{n}]" and z': "mixture_z st' = mixture_z st @ [k]"
    and p': "reusable_numbers st' = rest"
    using run pool_eq by (auto simp: append_customer_result n_def)
  have k_new: "k \<notin> set (mixture_z st)" and k_rest: "k \<notin> set rest" and d_rest: "distinct rest"
    and rest_z: "set rest \<inter> set (mixture_z st) = {}"
    using pool pool_eq by (auto simp: pool_ok_def)
  have range: "0 \<le> self_c st ! a \<and> self_c st ! a < int n" if "a < n" for a
    using act that len by (simp add: links_active_def)
  have g: "self_g st ! a = {b. b < n \<and> (self_c st ! a = int b \<or> self_c st ! b = int a)}"
    if "a < n" for a
    using gl that by (simp add: graph_of_links_def n_def)
  have sz': "sizes_ok st'"
    using len by (simp add: sizes_ok_def N' c' g' z')
  have gl': "graph_of_links st'"
    unfolding graph_of_links_def N' c' g'
  proof (intro allI impI set_eqI)
    fix a b assume a: "a < Suc n"
    show "b \<in> (self_g st @ [{n}]) ! a \<longleftrightarrow>
            b \<in> {b. b < Suc n \<and> ((self_c st @ [int n]) ! a = int b \<or>
                                  (self_c st @ [int n]) ! b = int a)}"
    proof (cases "a < n")
      case True
      then show ?thesis
        using g [OF True] range [OF True] range [of b] len
        by (auto simp: nth_append less_Suc_eq)
    next
      case False
      then have "a = n" using a by simp
      then show ?thesis
        using range [of b] len by (auto simp: nth_append less_Suc_eq)
    qed
  qed
  have e': "edges (self_g st') = insert (n, n) (edges (self_g st))"
    using len by (auto simp: edges_def g' nth_append less_Suc_eq)
  have low: "a < n \<and> b < n" if "(a, b) \<in> edges (self_g st)" for a b
    using that edges_of_links [OF sz gl] by (simp add: n_def)
  have n_dom: "n \<notin> Domain (edges (self_g st))" and n_ran: "n \<notin> Range (edges (self_g st))"
    using low by (auto simp: Domain_iff Range_iff)
  have conn': "connected (self_g st') a b \<longleftrightarrow> connected (self_g st) a b" for a b
    by (simp add: connected_def e' rtrancl_self_loop)
  have conn: "connected (self_g st) a b \<longleftrightarrow> mixture_z st ! a = mixture_z st ! b"
    if "a < n" "b < n" for a b
    using cc that by (simp add: components_are_clusters_def n_def)
  have z_ne: "mixture_z st ! a \<noteq> k" "k \<noteq> mixture_z st ! a" if "a < n" for a
    using k_new that len by (metis nth_mem)+
  have cc': "components_are_clusters st'"
    unfolding components_are_clusters_def N' conn' z'
  proof (intro allI impI)
    fix a b assume a: "a < Suc n" and b: "b < Suc n"
    consider "a < n" "b < n" | "a = n" "b < n" | "a < n" "b = n" | "a = n" "b = n"
      using a b by linarith
    then show "connected (self_g st) a b \<longleftrightarrow>
                 (mixture_z st @ [k]) ! a = (mixture_z st @ [k]) ! b"
    proof cases
      case 1
      then show ?thesis using conn len by (simp add: nth_append)
    next
      case 2
      then have "\<not> connected (self_g st) a b"
        using rtrancl_outside_Domain [OF _ n_dom, of b] by (auto simp: connected_def)
      then show ?thesis using 2 len z_ne by (simp add: nth_append)
    next
      case 3
      then have "\<not> connected (self_g st) a b"
        using rtrancl_outside_Range [OF _ n_ran, of a] by (auto simp: connected_def)
      then show ?thesis using 3 len z_ne by (simp add: nth_append)
    next
      case 4
      then show ?thesis by (simp add: connected_refl)
    qed
  qed
  have pool': "pool_ok st'"
    using d_rest k_rest rest_z by (auto simp: pool_ok_def z' p')
  have act': "links_active (self_c st')"
    unfolding links_active_def c'
  proof (intro allI impI)
    fix a assume "a < length (self_c st @ [int n])"
    then have "a < n \<or> a = n" using len by auto
    then show "0 \<le> (self_c st @ [int n]) ! a \<and>
               (self_c st @ [int n]) ! a < int (length (self_c st @ [int n]))"
    proof
      assume "a < n"
      then show ?thesis using range [of a] len by (simp add: nth_append)
    next
      assume "a = n"
      then show ?thesis using len by (simp add: nth_append)
    qed
  qed
  show ?thesis
    using sz' gl' cc' pool' act' by (simp add: stable_inv_def state_inv_def)
qed

lemma init_inv: "stable_inv (init K al decay_function)"
  by (simp add: stable_inv_def state_inv_def sizes_ok_def graph_of_links_def
        components_are_clusters_def pool_ok_def links_active_def init_def distinct_map)

lemma timestamp_inv:
  "stable_inv st \<Longrightarrow> stable_inv (st\<lparr>self_timestamps := ts\<rparr>)"
  by (simp add: stable_inv_def state_inv_def sizes_ok_def graph_of_links_def
        components_are_clusters_def pool_ok_def)

section \<open>Computing the log-weights changes the cache only\<close>

lemma likelihood_under_z_state:
  "likelihood_under_z L st i c = Inr (v, st') \<Longrightarrow>
     \<exists>cache. st' = st\<lparr>self_likelihood_cache := cache\<rparr>"
  by (auto simp: likelihood_under_z_def Let_def split: sum.splits prod.splits)

lemma assignment_probability_state:
  assumes "assignment_probability L st i c = Inr (v, st')"
  shows "\<exists>cache. st' = st\<lparr>self_likelihood_cache := cache\<rparr>"
proof (cases "i = c")
  case True
  then have "st' = st"
    using assms by (auto simp: assignment_probability_def split: sum.splits)
  then have "st' = st\<lparr>self_likelihood_cache := self_likelihood_cache st\<rparr>" by simp
  then show ?thesis by (rule exI [of _ "self_likelihood_cache st"])
next
  case False
  show ?thesis
  proof (cases "mixture_z st ! i = mixture_z st ! c")
    case True
    then have "st' = st"
      using assms False
      by (auto simp: assignment_probability_def py_nth_def Let_def split: sum.splits if_splits)
    then have "st' = st\<lparr>self_likelihood_cache := self_likelihood_cache st\<rparr>" by simp
    then show ?thesis by (rule exI [of _ "self_likelihood_cache st"])
  next
    case diff: False
    then obtain lik where "likelihood_under_z L st i c = Inr (lik, st')"
      using assms False
      by (auto simp: assignment_probability_def py_nth_def Let_def
            split: sum.splits if_splits prod.splits)
    then show ?thesis by (rule likelihood_under_z_state)
  qed
qed

lemma assignment_probabilities_loop_state:
  "assignment_probabilities_loop L st i cs acc = Inr (ps, st') \<Longrightarrow>
     \<exists>cache. st' = st\<lparr>self_likelihood_cache := cache\<rparr>"
proof (induction cs arbitrary: st acc)
  case Nil
  then have "st' = st\<lparr>self_likelihood_cache := self_likelihood_cache st\<rparr>" by simp
  then show ?case by (rule exI [of _ "self_likelihood_cache st"])
next
  case (Cons c cs)
  from Cons.prems obtain prob st1 where
    one: "assignment_probability L st i c = Inr (prob, st1)" and
    rest: "assignment_probabilities_loop L st1 i cs (acc @ [(c, prob)]) = Inr (ps, st')"
    by (auto split: sum.splits prod.splits)
  from assignment_probability_state [OF one] obtain cache1 where
    "st1 = st\<lparr>self_likelihood_cache := cache1\<rparr>" ..
  moreover from Cons.IH [OF rest] obtain cache2 where
    "st' = st1\<lparr>self_likelihood_cache := cache2\<rparr>" ..
  ultimately have "st' = st\<lparr>self_likelihood_cache := cache2\<rparr>" by simp
  then show ?case by (rule exI [of _ cache2])
qed

lemma pending_inv_cache:
  "pending_inv i (st\<lparr>self_likelihood_cache := cache\<rparr>) = pending_inv i st"
  by (simp add: pending_inv_def state_inv_def sizes_ok_def graph_of_links_def
        components_are_clusters_def pool_ok_def)

section \<open>The invariant holds in every state between two mutations\<close>

lemma reachable_inv:
  shows "stable st \<Longrightarrow> stable_inv st" and "pending i st \<Longrightarrow> pending_inv i st"
proof (induction rule: stable_pending.inducts)
  case (stable_init K al decay_function)
  show ?case by (rule init_inv)
next
  case (stable_append st doc_id st')
  then show ?case by (simp add: append_customer_inv)
next
  case (stable_timestamp st t)
  then show ?case by (simp add: timestamp_inv)
next
  case (pending_remove st i st')
  then show ?case by (simp add: remove_assignment_inv)
next
  case (pending_probabilities i st L ps st')
  from assignment_probabilities_loop_state [OF pending_probabilities.hyps(2) [unfolded get_assignment_probabilities_def]]
  obtain cache where "st' = st\<lparr>self_likelihood_cache := cache\<rparr>" ..
  then show ?case using pending_probabilities.IH by (simp add: pending_inv_cache)
next
  case (stable_add i st c st')
  then show ?case by (simp add: add_assignment_inv)
qed

section \<open>The two example states are reached by the program\<close>

lemma upt_0_2: "[0..<2] = [0, Suc 0]"
  by (simp add: numeral_2_eq_2)

lemma example_documents:
  "add_documents (init 2 1 (\<lambda>d. window_decay d a)) [(10, 0, 0), (11, 172800, 0)] =
     Inr ((example_pending a)\<lparr>self_g := [{0}, {1}], self_c := [0, 1]\<rparr>)"
  by (simp add: add_document_def append_customer_result init_def example_pending_def upt_0_2)

lemma example_remove_self:
  "remove_assignment ((example_pending a)\<lparr>self_g := [{0}, {1}], self_c := [0, 1]\<rparr>) 1
     = Inr (example_pending a)"
  by (simp add: remove_assignment_def is_table_split_def py_nth_def py_get_def
        remove_from_graph_def set_remove_def example_pending_def)

lemma example_add:
  "add_assignment (example_pending a) 1 0 = Inr (example_stable a)"
  by (simp add: add_assignment_def py_nth_def py_store_def put_nowait_def mixture_merge_def
        example_pending_def example_stable_def insert_commute)

lemma example_people: "get_people_next_to (example_pending a) 1 = Inr {1}"
  by (simp add: get_people_next_to_def people_loop.simps [of _ "[1]"] people_loop_Nil
        example_pending_def)

lemma example_remove_split:
  "remove_assignment (example_stable a) 1 = Inr (example_pending a)"
  by (simp add: remove_assignment_def is_table_split_def py_nth_def py_get_def
        is_table_split_loop.simps
        remove_from_graph_def set_remove_def get_new_cluster_number_def pool_get_def
        get_people_next_to_def people_loop.simps [of _ "[1]"] people_loop_Nil
        mixture_split_def example_pending_def example_stable_def insert_Diff_if upt_0_2)


lemma example_stable_reached: "stable (example_stable a)"
proof -
  let ?s0 = "init 2 1 (\<lambda>d. window_decay d a)"
  have "stable ?s0" by (rule stable_init)
  moreover have "append_customer ?s0 10 =
      Inr (?s0\<lparr>self_ids := [10], self_c := [0], self_g := [{0}], reusable_numbers := [1],
               mixture_z := [0], self_N := 1, self_K := 1\<rparr>)"
    (is "_ = Inr ?s1")
    by (simp add: append_customer_result init_def upt_0_2)
  ultimately have "stable ?s1" by (rule stable_append)
  then have "stable (?s1\<lparr>self_timestamps := self_timestamps ?s1 @ [0]\<rparr>)"
    (is "stable ?s2")
    by (rule stable_timestamp)
  moreover have "append_customer ?s2 11 =
      Inr ((example_pending a)\<lparr>self_g := [{0}, {1}], self_c := [0, 1], self_timestamps := [0]\<rparr>)"
    (is "_ = Inr ?s3")
    by (simp add: append_customer_result init_def example_pending_def)
  ultimately have "stable ?s3" by (rule stable_append)
  then have "stable (?s3\<lparr>self_timestamps := self_timestamps ?s3 @ [2]\<rparr>)"
    (is "stable ?s4")
    by (rule stable_timestamp)
  moreover have "?s4 = (example_pending a)\<lparr>self_g := [{0}, {1}], self_c := [0, 1]\<rparr>"
    by (simp add: example_pending_def)
  ultimately have "stable ((example_pending a)\<lparr>self_g := [{0}, {1}], self_c := [0, 1]\<rparr>)"
    by simp
  then have "pending 1 (example_pending a)"
    by (rule pending_remove [OF _ _ example_remove_self]) (simp add: example_pending_def)
  then show ?thesis
    by (rule stable_add [OF _ _ example_add]) (simp add: example_pending_def)
qed

lemma example_pending_reached: "pending 1 (example_pending a)"
  by (rule pending_remove [OF example_stable_reached _ example_remove_split])
    (simp add: example_stable_def)

section \<open>The log-weight of a candidate\<close>

lemma cache_get_fst: "fst (cache_get L cache S) = cached L cache S"
  by (simp add: cache_get_def cached_def split: option.splits)

lemma cache_get_snd: "cached L (snd (cache_get L cache S)) S' = cached L cache S'"
  by (simp add: cache_get_def cached_def split: option.splits)

lemma likelihood_under_z_value:
  assumes "wf_g (self_g st)" and "i < length (self_g st)" and "c < length (self_g st)"
  shows "\<exists>cache'. likelihood_under_z L st i c =
           Inr (cached L (self_likelihood_cache st)
                   (component (self_g st) i \<union> component (self_g st) c)
                 - cached L (self_likelihood_cache st) (component (self_g st) i)
                 - cached L (self_likelihood_cache st) (component (self_g st) c),
                st\<lparr>self_likelihood_cache := cache'\<rparr>)"
proof -
  define k where "k = component (self_g st) i"
  define l where "l = component (self_g st) c"
  define cache where "cache = self_likelihood_cache st"
  define r1 where "r1 = cache_get L cache k"
  define r2 where "r2 = cache_get L (snd r1) l"
  define r3 where "r3 = cache_get L (snd r2) (k \<union> l)"
  have pk: "get_people_next_to st i = Inr k" and pl: "get_people_next_to st c = Inr l"
    using assms by (simp_all add: get_people_next_to_component k_def l_def)
  have run: "likelihood_under_z L st i c =
      Inr (fst r3 - fst r1 - fst r2, st\<lparr>self_likelihood_cache := snd r3\<rparr>)"
    by (simp add: likelihood_under_z_def pk pl Let_def split_beta
          cache_def r1_def r2_def r3_def)
  have "fst r1 = cached L cache k"
    by (simp add: r1_def cache_get_fst)
  moreover have "fst r2 = cached L cache l"
    by (simp add: r2_def r1_def cache_get_fst cache_get_snd)
  moreover have "fst r3 = cached L cache (k \<union> l)"
    by (simp add: r3_def r2_def r1_def cache_get_fst cache_get_snd)
  ultimately have "likelihood_under_z L st i c =
      Inr (cached L cache (k \<union> l) - cached L cache k - cached L cache l,
           st\<lparr>self_likelihood_cache := snd r3\<rparr>)"
    using run by simp
  then show ?thesis
    unfolding k_def l_def cache_def by (rule exI [of _ "snd r3"])
qed

lemma assignment_probability_value:
  assumes sz: "sizes_ok st" and gl: "graph_of_links st"
    and i: "i < self_N st" and t: "t < self_N st"
    and ts: "i < length (self_timestamps st)" "t < length (self_timestamps st)"
    and al: "0 < self_alpha st"
    and pos: "t \<noteq> i \<longrightarrow> 0 < self_f st \<bar>self_timestamps st ! i - self_timestamps st ! t\<bar>"
  shows "\<exists>cache'. assignment_probability L st i t =
           Inr (if t = i then ln (self_alpha st)
                else if mixture_z st ! i = mixture_z st ! t
                  then ln (self_f st \<bar>self_timestamps st ! i - self_timestamps st ! t\<bar>)
                else ln (self_f st \<bar>self_timestamps st ! i - self_timestamps st ! t\<bar>)
                     + (cached L (self_likelihood_cache st)
                          (component (self_g st) i \<union> component (self_g st) t)
                        - cached L (self_likelihood_cache st) (component (self_g st) i)
                        - cached L (self_likelihood_cache st) (component (self_g st) t)),
                st\<lparr>self_likelihood_cache := cache'\<rparr>)"
proof (cases "t = i")
  case True
  then have "assignment_probability L st i t =
      Inr (ln (self_alpha st), st\<lparr>self_likelihood_cache := self_likelihood_cache st\<rparr>)"
    using al by (simp add: assignment_probability_def math_log_def)
  then show ?thesis using True by (intro exI [of _ "self_likelihood_cache st"]) simp
next
  case False
  define d where "d = \<bar>self_timestamps st ! i - self_timestamps st ! t\<bar>"
  have len: "length (self_g st) = self_N st" "length (mixture_z st) = self_N st"
    using sz by (simp_all add: sizes_ok_def)
  have fd: "0 < self_f st d" using pos False by (simp add: d_def)
  have log: "math_log (self_f st d) = Inr (ln (self_f st d))"
    using fd by (simp add: math_log_def)
  show ?thesis
  proof (cases "mixture_z st ! i = mixture_z st ! t")
    case True
    then have "assignment_probability L st i t =
        Inr (ln (self_f st d), st\<lparr>self_likelihood_cache := self_likelihood_cache st\<rparr>)"
      using False i t ts len log
      by (simp add: assignment_probability_def py_nth_def Let_def d_def [symmetric])
    then show ?thesis
      using True False
      by (intro exI [of _ "self_likelihood_cache st"]) (simp add: d_def)
  next
    case diff: False
    from likelihood_under_z_value [OF wf_g_of_links [OF sz gl], of i t L] i t len
    obtain cache' where lik: "likelihood_under_z L st i t =
           Inr (cached L (self_likelihood_cache st)
                   (component (self_g st) i \<union> component (self_g st) t)
                 - cached L (self_likelihood_cache st) (component (self_g st) i)
                 - cached L (self_likelihood_cache st) (component (self_g st) t),
                st\<lparr>self_likelihood_cache := cache'\<rparr>)"
      by auto
    have "assignment_probability L st i t =
        Inr (ln (self_f st d)
             + (cached L (self_likelihood_cache st)
                   (component (self_g st) i \<union> component (self_g st) t)
                 - cached L (self_likelihood_cache st) (component (self_g st) i)
                 - cached L (self_likelihood_cache st) (component (self_g st) t)),
             st\<lparr>self_likelihood_cache := cache'\<rparr>)"
      using False diff i t ts len log lik
      by (simp add: assignment_probability_def py_nth_def Let_def d_def [symmetric])
    then show ?thesis
      using False diff by (intro exI [of _ cache']) (simp add: d_def)
  qed
qed

lemma example_people_0: "get_people_next_to (example_pending a) 0 = Inr {0}"
  by (simp add: get_people_next_to_def people_loop.simps [of _ "[0]"] people_loop_Nil
        example_pending_def)

lemma example_components:
  "component (self_g (example_pending a)) 0 = {0}"
  "component (self_g (example_pending a)) 1 = {1}"
proof -
  have wf: "wf_g (self_g (example_pending a))"
    by (simp add: wf_g_def example_pending_def less_Suc_eq numeral_2_eq_2)
  have len: "(0::nat) < length (self_g (example_pending a))"
    "(1::nat) < length (self_g (example_pending a))"
    by (simp_all add: example_pending_def)
  show "component (self_g (example_pending a)) 0 = {0}"
    using get_people_next_to_component [OF wf len(1)] example_people_0 [of a] by simp
  show "component (self_g (example_pending a)) 1 = {1}"
    using get_people_next_to_component [OF wf len(2)] example_people [of a] by simp
qed

section \<open>A state right after the ingestion of two documents\<close>

lemma example_ingested_eq:
  "(example_pending a)\<lparr>self_g := [{0}, {1}], self_c := [0, 1]\<rparr> = example_ingested a"
  by (simp add: example_pending_def example_ingested_def)

lemma example_ingested_reached: "stable (example_ingested a)"
proof -
  have run: "add_assignment (example_pending a) 1 1 = Inr (example_ingested a)"
    by (simp add: add_assignment_def py_nth_def py_store_def example_pending_def
          example_ingested_def)
  show ?thesis
    by (rule stable_add [OF example_pending_reached _ run]) (simp add: example_pending_def)
qed

section \<open>A customer linked to itself or to another customer\<close>

lemma rtrancl_only_self_loop:
  assumes "(i, a) \<in> R\<^sup>*" and "\<And>b. (i, b) \<in> R \<Longrightarrow> b = i"
  shows "a = i"
  using assms(1) by (induction rule: rtrancl_induct) (auto dest: assms(2))

lemma self_linked_alone:
  assumes inv: "stable_inv st" and i: "i < self_N st"
    and own: "self_c st ! i = int i"
    and others: "\<forall>b < self_N st. b \<noteq> i \<longrightarrow> self_c st ! b \<noteq> int i"
    and a: "a < self_N st" "a \<noteq> i"
  shows "mixture_z st ! a \<noteq> mixture_z st ! i"
proof -
  have sz: "sizes_ok st" and gl: "graph_of_links st" and cc: "components_are_clusters st"
    using inv by (simp_all add: stable_inv_def state_inv_def)
  have "b = i" if "(i, b) \<in> edges (self_g st)" for b
    using that own others unfolding edges_of_links [OF sz gl] by auto
  then have "\<not> connected (self_g st) i a"
    using rtrancl_only_self_loop [of i a "edges (self_g st)"] a(2)
    by (auto simp: connected_def)
  then have "\<not> connected (self_g st) a i"
    using connected_sym [OF sz gl] by blast
  then show ?thesis
    using cc a(1) i by (simp add: components_are_clusters_def)
qed

lemma linked_same_cluster:
  assumes inv: "stable_inv st" and i: "i < self_N st" and r: "r < self_N st"
    and link: "self_c st ! i = int r"
  shows "mixture_z st ! i = mixture_z st ! r"
proof -
  have sz: "sizes_ok st" and gl: "graph_of_links st" and cc: "components_are_clusters st"
    using inv by (simp_all add: stable_inv_def state_inv_def)
  have "(i, r) \<in> edges (self_g st)"
    unfolding edges_of_links [OF sz gl] using i r link by simp
  then have "connected (self_g st) i r" by (auto simp: connected_def)
  then show ?thesis
    using cc i r by (simp add: components_are_clusters_def)
qed

lemma append_customer_fresh:
  assumes st: "stable st" and pool: "reusable_numbers st \<noteq> []"
  shows "\<exists>st1. append_customer st doc_id = Inr st1 \<and> stable st1 \<and>
           self_N st1 = self_N st + 1 \<and> self_K_max st1 = self_K_max st \<and>
           self_c st1 = self_c st @ [int (self_N st)] \<and>
           self_c st1 ! self_N st = int (self_N st) \<and>
           self_g st1 ! self_N st = {self_N st} \<and>
           (\<forall>a < self_N st. mixture_z st1 ! a \<noteq> mixture_z st1 ! self_N st)"
proof -
  obtain k rest where pool_eq: "reusable_numbers st = k # rest"
    using pool by (cases "reusable_numbers st") simp_all
  define st1 where "st1 = st\<lparr>self_ids := self_ids st @ [doc_id],
                  self_c := self_c st @ [int (self_N st)],
                  self_g := self_g st @ [{self_N st}],
                  reusable_numbers := rest,
                  mixture_z := mixture_z st @ [k],
                  self_N := self_N st + 1,
                  self_K := self_K st + 1\<rparr>"
  have run: "append_customer st doc_id = Inr st1"
    by (simp add: append_customer_result pool_eq st1_def)
  have stable1: "stable st1" using st run by (rule stable_append)
  have inv: "stable_inv st" using st by (rule reachable_inv)
  have inv1: "stable_inv st1" using stable1 by (rule reachable_inv)
  have len: "length (self_c st) = self_N st" "length (self_g st) = self_N st"
    and act: "links_active (self_c st)"
    using inv by (simp_all add: stable_inv_def state_inv_def sizes_ok_def)
  have c1: "self_c st1 ! self_N st = int (self_N st)"
    and g1: "self_g st1 ! self_N st = {self_N st}"
    using len by (simp_all add: st1_def nth_append)
  have others: "\<forall>b < self_N st1. b \<noteq> self_N st \<longrightarrow> self_c st1 ! b \<noteq> int (self_N st)"
  proof (intro allI impI)
    fix b assume "b < self_N st1" "b \<noteq> self_N st"
    then have b: "b < self_N st" by (simp add: st1_def)
    then have "self_c st ! b < int (self_N st)"
      using act len by (simp add: links_active_def)
    then show "self_c st1 ! b \<noteq> int (self_N st)"
      using b len by (simp add: st1_def nth_append)
  qed
  have "mixture_z st1 ! a \<noteq> mixture_z st1 ! self_N st" if "a < self_N st" for a
    using self_linked_alone [OF inv1 _ c1 others, of a] that by (simp add: st1_def)
  then show ?thesis
    using run stable1 c1 g1 by (intro exI [of _ st1]) (simp add: st1_def)
qed

lemma add_document_result:
  assumes st: "stable st" and r: "r \<le> self_N st" and pool: "reusable_numbers st \<noteq> []"
  shows "\<exists>st'. add_document st doc_id timestamp r = Inr st' \<and> stable st' \<and>
           self_N st' = self_N st + 1 \<and>
           (\<forall>b < self_N st. self_c st' ! b = self_c st ! b) \<and>
           self_c st' ! self_N st =
             (if self_K_max st < int (self_N st) + 1 then int r else int (self_N st))"
proof -
  define i where "i = self_N st"
  from append_customer_fresh [OF st pool, of doc_id] obtain st1 where
    app: "append_customer st doc_id = Inr st1" and stable1: "stable st1"
    and N1: "self_N st1 = i + 1" and K1: "self_K_max st1 = self_K_max st"
    and c1: "self_c st1 = self_c st @ [int i]"
    by (auto simp: i_def)
  have inv: "stable_inv st" using st by (rule reachable_inv)
  have len: "length (self_c st) = i"
    using inv by (simp add: stable_inv_def state_inv_def sizes_ok_def i_def)
  have inv1: "stable_inv st1" using stable1 by (rule reachable_inv)
  show ?thesis
  proof (cases "self_K_max st < int i + 1")
    case False
    define st' where "st' = st1\<lparr>self_timestamps := self_timestamps st1 @ [timestamp / (60 * 60 * 24)]\<rparr>"
    have run: "add_document st doc_id timestamp r = Inr st'"
      using False app N1 K1 by (simp add: add_document_def st'_def Let_def)
    have "stable st'" unfolding st'_def using stable1 by (rule stable_timestamp)
    moreover have "self_c st' = self_c st @ [int i]" "self_N st' = i + 1"
      by (simp_all add: st'_def c1 N1)
    ultimately show ?thesis
      using run False len by (intro exI [of _ st']) (simp add: i_def [symmetric] nth_append)
  next
    case True
    define st2 where "st2 = st1\<lparr>self_g := removeLink_spec (self_g st1) (self_c st1) i,
                                 self_c := (self_c st1)[i := - 1]\<rparr>"
    have "(follow (self_c st1) ^^ 1) i = i"
      using len by (simp add: follow_def c1 nth_append)
    then have cyc: "\<not> (\<forall>m>0. (follow (self_c st1) ^^ m) i \<noteq> i)"
      by (metis zero_less_one)
    have rem: "remove_assignment st1 i = Inr st2"
      using remove_assignment_result [OF inv1 _ st2_def refl, of ] cyc N1 by simp
    have pend: "pending i st2"
      using stable1 _ rem by (rule pending_remove) (simp add: N1)
    have inv2: "pending_inv i st2" using pend by (rule reachable_inv)
    then have sz2: "sizes_ok st2" by (simp add: pending_inv_def state_inv_def)
    have N2: "self_N st2 = i + 1" by (simp add: st2_def N1)
    from add_assignment_fields [OF sz2, of i r] r obtain st3 where
      add: "add_assignment st2 i r = Inr st3" and N3: "self_N st3 = i + 1"
      and c3: "self_c st3 = (self_c st2)[i := int r]"
      by (auto simp: N2 i_def)
    have stable3: "stable st3"
      using pend _ add by (rule stable_add) (use r in \<open>simp add: N2 i_def\<close>)
    define st' where "st' = st3\<lparr>self_timestamps := self_timestamps st3 @ [timestamp / (60 * 60 * 24)]\<rparr>"
    have run: "add_document st doc_id timestamp r = Inr st'"
      using True app N1 K1 rem add
      by (simp add: add_document_def st'_def Let_def i_def [symmetric])
    have "stable st'" unfolding st'_def using stable3 by (rule stable_timestamp)
    moreover have "self_c st' = (self_c st @ [int i])[i := int r]" "self_N st' = i + 1"
      by (simp_all add: st'_def c3 st2_def c1 N3)
    ultimately show ?thesis
      using run True len
      by (intro exI [of _ st']) (simp add: i_def [symmetric] nth_append nth_list_update)
  qed
qed

section \<open>Normalising the log-weights\<close>

lemma sum_list_exp_pos:
  "xs \<noteq> [] \<Longrightarrow> 0 < (\<Sum>x\<leftarrow>xs. exp (x - m :: real))"
proof (induction xs)
  case Nil
  then show ?case by simp
next
  case (Cons x xs)
  have "0 \<le> (\<Sum>x\<leftarrow>xs. exp (x - m))"
    by (rule sum_list_nonneg) auto
  moreover have "0 < exp (x - m)" by simp
  ultimately have "0 < exp (x - m) + (\<Sum>x\<leftarrow>xs. exp (x - m))"
    by (rule add_pos_nonneg [rotated])
  then show ?case by simp
qed

lemma exp_minus_logsumexp:
  assumes "xs \<noteq> []"
  shows "exp (x - logsumexp xs) =
           exp (x - Max (set xs)) / (\<Sum>y\<leftarrow>xs. exp (y - Max (set xs)))"
proof -
  define m where "m = Max (set xs)"
  define S where "S = (\<Sum>y\<leftarrow>xs. exp (y - m))"
  have S: "0 < S" unfolding S_def using assms by (rule sum_list_exp_pos)
  have "logsumexp xs = ln S + m"
    by (simp add: logsumexp_def Let_def m_def S_def)
  then have "exp (x - logsumexp xs) = exp ((x - m) - ln S)" by (simp add: algebra_simps)
  also have "\<dots> = exp (x - m) / exp (ln S)" by (rule exp_diff)
  also have "\<dots> = exp (x - m) / S" using S by simp
  finally show ?thesis by (simp add: m_def S_def)
qed

lemma softmax_sums_to_one:
  assumes "xs \<noteq> []"
  shows "(\<Sum>x\<leftarrow>xs. exp (x - logsumexp xs)) = 1"
proof -
  define m where "m = Max (set xs)"
  define S where "S = (\<Sum>y\<leftarrow>xs. exp (y - m))"
  have S: "0 < S" unfolding S_def using assms by (rule sum_list_exp_pos)
  have "(\<Sum>x\<leftarrow>xs. exp (x - logsumexp xs)) = (\<Sum>x\<leftarrow>xs. exp (x - m) * inverse S)"
    using exp_minus_logsumexp [OF assms]
    by (simp add: m_def S_def divide_inverse)
  also have "\<dots> = (\<Sum>x\<leftarrow>xs. exp (x - m)) * inverse S"
    by (rule sum_list_mult_const)
  also have "\<dots> = 1" using S by (simp add: S_def)
  finally show ?thesis .
qed

lemma to_probabilities_distribution:
  assumes "indexed \<noteq> []"
  shows "\<exists>probs. to_probabilities indexed = Inr probs \<and>
           map fst probs = map fst indexed \<and>
           map snd probs =
             map (\<lambda>x. exp (x - logsumexp (map snd indexed))) (map snd indexed) \<and>
           (\<forall>p \<in> set probs. 0 < snd p) \<and>
           sum_list (map snd probs) = 1"
proof -
  define logs where "logs = map snd indexed"
  define probs where "probs = zip (map fst indexed) (map (\<lambda>x. exp (x - logsumexp logs)) logs)"
  have run: "to_probabilities indexed = Inr probs"
    using assms by (simp add: to_probabilities_def Let_def probs_def logs_def)
  have fst: "map fst probs = map fst indexed"
    by (simp add: probs_def logs_def)
  have snd: "map snd probs = map (\<lambda>x. exp (x - logsumexp logs)) logs"
    by (simp add: probs_def logs_def)
  have "logs \<noteq> []" using assms by (simp add: logs_def)
  then have "sum_list (map snd probs) = 1"
    unfolding snd using softmax_sums_to_one [of logs] by (simp add: o_def)
  moreover have "\<forall>p \<in> set probs. 0 < snd p"
  proof
    fix p assume "p \<in> set probs"
    then have "snd p \<in> set (map snd probs)" by simp
    then show "0 < snd p" unfolding snd by auto
  qed
  ultimately show ?thesis
    using run fst snd by (intro exI [of _ probs]) (simp add: logs_def)
qed

lemma assignment_probabilities_loop_ids:
  "assignment_probabilities_loop L st i cs acc = Inr (ps, st') \<Longrightarrow>
     map fst ps = map fst acc @ cs"
proof (induction cs arbitrary: st acc)
  case Nil
  then show ?case by simp
next
  case (Cons c cs)
  from Cons.prems obtain prob st1 where
    "assignment_probabilities_loop L st1 i cs (acc @ [(c, prob)]) = Inr (ps, st')"
    by (auto split: sum.splits prod.splits)
  from Cons.IH [OF this] show ?case by simp
qed

lemma assignment_probabilities_loop_returns:
  assumes "sizes_ok st" and "graph_of_links st" and "i < self_N st"
    and "length (self_timestamps st) = self_N st" and "0 < self_alpha st"
    and "\<forall>c < self_N st. c \<noteq> i \<longrightarrow>
           0 < self_f st \<bar>self_timestamps st ! i - self_timestamps st ! c\<bar>"
    and "\<forall>c \<in> set cs. c < self_N st"
  shows "\<exists>ps st'. assignment_probabilities_loop L st i cs acc = Inr (ps, st')"
  using assms
proof (induction cs arbitrary: st acc)
  case Nil
  show ?case by simp
next
  case (Cons c cs)
  have c: "c < self_N st" using Cons.prems(7) by simp
  from assignment_probability_value [OF Cons.prems(1,2,3) c, of L] Cons.prems(3,4,5,6) c
  obtain w cache' where one:
    "assignment_probability L st i c = Inr (w, st\<lparr>self_likelihood_cache := cache'\<rparr>)"
    by auto
  define st1 where "st1 = st\<lparr>self_likelihood_cache := cache'\<rparr>"
  have "\<exists>ps st'. assignment_probabilities_loop L st1 i cs (acc @ [(c, w)]) = Inr (ps, st')"
  proof (rule Cons.IH)
    show "sizes_ok st1" using Cons.prems(1) by (simp add: sizes_ok_def st1_def)
    show "graph_of_links st1" using Cons.prems(2) by (simp add: graph_of_links_def st1_def)
    show "i < self_N st1" using Cons.prems(3) by (simp add: st1_def)
    show "length (self_timestamps st1) = self_N st1"
      using Cons.prems(4) by (simp add: st1_def)
    show "0 < self_alpha st1" using Cons.prems(5) by (simp add: st1_def)
    show "\<forall>c < self_N st1. c \<noteq> i \<longrightarrow>
           0 < self_f st1 \<bar>self_timestamps st1 ! i - self_timestamps st1 ! c\<bar>"
      using Cons.prems(6) by (simp add: st1_def)
    show "\<forall>c \<in> set cs. c < self_N st1" using Cons.prems(7) by (simp add: st1_def)
  qed
  then show ?case using one by (simp add: st1_def)
qed

section \<open>The methods of the class move between these states\<close>

lemma remove_assignment_N:
  assumes "stable st" and "i < self_N st" and "remove_assignment st i = Inr st'"
  shows "self_N st' = self_N st"
proof -
  have inv: "stable_inv st" using assms(1) by (rule reachable_inv)
  show ?thesis
    using remove_assignment_result [OF inv assms(2) refl refl] assms(3)
    by (auto split: if_splits list.splits)
qed

lemma sample_document_stable:
  assumes st: "stable st" and i: "i < self_N st" and drawn: "drawn < self_N st"
    and run: "sample_document L st i drawn = Inr st'"
  shows "stable st'"
proof -
  from run obtain st1 lps st2 where
    rem: "remove_assignment st i = Inr st1"
    and probs: "get_assignment_probabilities L st1 i = Inr (lps, st2)"
    and add: "add_assignment st2 i drawn = Inr st'"
    by (auto simp: sample_document_def split: sum.splits prod.splits)
  have p1: "pending i st1" using st i rem by (rule pending_remove)
  then have p2: "pending i st2" using probs by (rule pending_probabilities)
  from assignment_probabilities_loop_state [OF probs [unfolded get_assignment_probabilities_def]]
  obtain cache where "st2 = st1\<lparr>self_likelihood_cache := cache\<rparr>" ..
  then have "self_N st2 = self_N st"
    using remove_assignment_N [OF st i rem] by simp
  then have "drawn < self_N st2" using drawn by simp
  with p2 show ?thesis using add by (rule stable_add)
qed

lemma add_document_stable:
  assumes st: "stable st" and r: "r \<le> self_N st"
    and run: "add_document st doc_id timestamp r = Inr st'"
  shows "stable st'"
proof -
  have "reusable_numbers st \<noteq> []"
    using run by (auto simp: add_document_def append_customer_result Let_def)
  from add_document_result [OF st r this, of doc_id timestamp] run
  show ?thesis by auto
qed

lemma add_documents_stable:
  assumes "stable st" and "add_documents st docs = Inr st'"
    and "\<forall>k < length docs. snd (snd (docs ! k)) \<le> self_N st + k"
  shows "stable st'"
  using assms
proof (induction docs arbitrary: st)
  case Nil
  then show ?case by simp
next
  case (Cons doc docs)
  obtain doc_id timestamp r where doc: "doc = (doc_id, timestamp, r)"
    by (cases doc) auto
  from Cons.prems(2) obtain st1 where
    one: "add_document st doc_id timestamp r = Inr st1"
    and rest: "add_documents st1 docs = Inr st'"
    by (auto simp: doc split: sum.splits)
  have r: "r \<le> self_N st" using Cons.prems(3) by (auto simp: doc)
  have stable1: "stable st1" using Cons.prems(1) r one by (rule add_document_stable)
  have "reusable_numbers st \<noteq> []"
    using one by (auto simp: add_document_def append_customer_result Let_def)
  from add_document_result [OF Cons.prems(1) r this, of doc_id timestamp] one
  have N1: "self_N st1 = self_N st + 1" by auto
  have "\<forall>k < length docs. snd (snd (docs ! k)) \<le> self_N st1 + k"
  proof (intro allI impI)
    fix k assume "k < length docs"
    then have "snd (snd ((doc # docs) ! Suc k)) \<le> self_N st + Suc k"
      using Cons.prems(3) by (metis Suc_less_eq length_Cons)
    then show "snd (snd (docs ! k)) \<le> self_N st1 + k" by (simp add: N1)
  qed
  with stable1 rest show ?case by (rule Cons.IH)
qed

section \<open>Ingestion with any cluster number that is not in use\<close>

lemma append_customer_drawn_eq:
  "reusable_numbers st = k # rest \<Longrightarrow>
     append_customer st doc_id = Inr (append_customer_drawn st doc_id k rest)"
  by (simp add: append_customer_result append_customer_drawn_def Let_def mixture_new_vector_def)

lemma add_document_drawn_eq:
  "reusable_numbers st = k # rest \<Longrightarrow>
     add_document st doc_id timestamp r = add_document_drawn st doc_id timestamp r k rest"
  by (simp add: add_document_def add_document_drawn_def append_customer_drawn_eq Let_def)

lemma append_customer_drawn_inv:
  assumes inv: "stable_inv st"
    and k: "k \<notin> set (mixture_z st)" "k \<notin> set rest"
    and rest: "distinct rest" "set rest \<inter> set (mixture_z st) = {}"
  shows "stable_inv (append_customer_drawn st doc_id k rest)"
proof -
  define st0 where "st0 = st\<lparr>reusable_numbers := k # rest\<rparr>"
  have "stable_inv st0"
    using inv k rest
    by (simp add: stable_inv_def state_inv_def sizes_ok_def graph_of_links_def
          components_are_clusters_def pool_ok_def st0_def)
  moreover have "append_customer st0 doc_id = Inr (append_customer_drawn st doc_id k rest)"
    by (simp add: append_customer_result append_customer_drawn_def Let_def
          mixture_new_vector_def st0_def)
  ultimately show ?thesis by (rule append_customer_inv)
qed

lemma append_customer_drawn_fresh:
  fixes st :: ddcrp and doc_id k :: int and rest :: "int list"
  assumes inv: "stable_inv st"
    and k: "k \<notin> set (mixture_z st)" "k \<notin> set rest"
    and rest: "distinct rest" "set rest \<inter> set (mixture_z st) = {}"
  defines "st1 \<equiv> append_customer_drawn st doc_id k rest"
  shows "self_c st1 ! self_N st = int (self_N st)"
    and "self_g st1 ! self_N st = {self_N st}"
    and "\<forall>a < self_N st. mixture_z st1 ! a \<noteq> mixture_z st1 ! self_N st"
proof -
  have inv1: "stable_inv st1"
    unfolding st1_def using inv k rest by (rule append_customer_drawn_inv)
  have len: "length (self_c st) = self_N st" "length (self_g st) = self_N st"
    and act: "links_active (self_c st)"
    using inv by (simp_all add: stable_inv_def state_inv_def sizes_ok_def)
  have N1: "self_N st1 = self_N st + 1"
    and c1e: "self_c st1 = self_c st @ [int (self_N st)]"
    and g1e: "self_g st1 = self_g st @ [{self_N st}]"
    by (simp_all add: st1_def append_customer_drawn_def Let_def)
  show c1: "self_c st1 ! self_N st = int (self_N st)"
    using len by (simp add: c1e nth_append)
  show "self_g st1 ! self_N st = {self_N st}"
    using len by (simp add: g1e nth_append)
  have others: "\<forall>b < self_N st1. b \<noteq> self_N st \<longrightarrow> self_c st1 ! b \<noteq> int (self_N st)"
  proof (intro allI impI)
    fix b assume "b < self_N st1" "b \<noteq> self_N st"
    then have b: "b < self_N st" by (simp add: N1)
    then have "self_c st ! b < int (self_N st)"
      using act len by (simp add: links_active_def)
    then show "self_c st1 ! b \<noteq> int (self_N st)"
      using b len by (simp add: c1e nth_append)
  qed
  show "\<forall>a < self_N st. mixture_z st1 ! a \<noteq> mixture_z st1 ! self_N st"
  proof (intro allI impI)
    fix a assume "a < self_N st"
    then show "mixture_z st1 ! a \<noteq> mixture_z st1 ! self_N st"
      using self_linked_alone [OF inv1 _ c1 others, of a] by (simp add: N1)
  qed
qed

lemma add_document_drawn_result:
  assumes inv: "stable_inv st" and r: "r \<le> self_N st"
    and k: "k \<notin> set (mixture_z st)" "k \<notin> set rest"
    and rest: "distinct rest" "set rest \<inter> set (mixture_z st) = {}"
  shows "\<exists>st'. add_document_drawn st doc_id timestamp r k rest = Inr st' \<and> stable_inv st' \<and>
           self_N st' = self_N st + 1 \<and>
           (\<forall>b < self_N st. self_c st' ! b = self_c st ! b) \<and>
           self_c st' ! self_N st =
             (if self_K_max st < int (self_N st) + 1 then int r else int (self_N st))"
proof -
  define i where "i = self_N st"
  define st1 where "st1 = append_customer_drawn st doc_id k rest"
  have inv1: "stable_inv st1"
    unfolding st1_def using inv k rest by (rule append_customer_drawn_inv)
  have N1: "self_N st1 = i + 1" and K1: "self_K_max st1 = self_K_max st"
    and c1: "self_c st1 = self_c st @ [int i]"
    by (simp_all add: st1_def append_customer_drawn_def Let_def i_def)
  have len: "length (self_c st) = i"
    using inv by (simp add: stable_inv_def state_inv_def sizes_ok_def i_def)
  show ?thesis
  proof (cases "self_K_max st < int i + 1")
    case False
    define st' where "st' = st1\<lparr>self_timestamps := self_timestamps st1 @ [timestamp / (60 * 60 * 24)]\<rparr>"
    have run: "add_document_drawn st doc_id timestamp r k rest = Inr st'"
      using False N1 K1
      by (simp add: add_document_drawn_def st1_def [symmetric] st'_def Let_def)
    have "stable_inv st'" unfolding st'_def using inv1 by (rule timestamp_inv)
    moreover have "self_c st' = self_c st @ [int i]" "self_N st' = i + 1"
      by (simp_all add: st'_def c1 N1)
    ultimately show ?thesis
      using run False len by (intro exI [of _ st']) (simp add: i_def [symmetric] nth_append)
  next
    case True
    define st2 where "st2 = st1\<lparr>self_g := removeLink_spec (self_g st1) (self_c st1) i,
                                 self_c := (self_c st1)[i := - 1]\<rparr>"
    have i1: "i < self_N st1" by (simp add: N1)
    have "(follow (self_c st1) ^^ 1) i = i"
      using len by (simp add: follow_def c1 nth_append)
    then have cyc: "\<not> (\<forall>m>0. (follow (self_c st1) ^^ m) i \<noteq> i)"
      by (metis zero_less_one)
    have rem: "remove_assignment st1 i = Inr st2"
      using remove_assignment_result [OF inv1 i1 st2_def refl] cyc by simp
    have inv2: "pending_inv i st2"
      using inv1 i1 rem by (rule remove_assignment_inv)
    then have sz2: "sizes_ok st2" by (simp add: pending_inv_def state_inv_def)
    have N2: "self_N st2 = i + 1" by (simp add: st2_def N1)
    have r2: "r < self_N st2" using r by (simp add: N2 i_def)
    from add_assignment_fields [OF sz2, of i r] r obtain st3 where
      add: "add_assignment st2 i r = Inr st3" and N3: "self_N st3 = i + 1"
      and c3: "self_c st3 = (self_c st2)[i := int r]"
      by (auto simp: N2 i_def)
    have inv3: "stable_inv st3"
      using inv2 r2 add by (rule add_assignment_inv)
    define st' where "st' = st3\<lparr>self_timestamps := self_timestamps st3 @ [timestamp / (60 * 60 * 24)]\<rparr>"
    have run: "add_document_drawn st doc_id timestamp r k rest = Inr st'"
      using True N1 K1 rem add
      by (simp add: add_document_drawn_def st1_def [symmetric] st'_def Let_def
            i_def [symmetric])
    have "stable_inv st'" unfolding st'_def using inv3 by (rule timestamp_inv)
    moreover have "self_c st' = (self_c st @ [int i])[i := int r]" "self_N st' = i + 1"
      by (simp_all add: st'_def c3 st2_def c1 N3)
    ultimately show ?thesis
      using run True len
      by (intro exI [of _ st']) (simp add: i_def [symmetric] nth_append nth_list_update)
  qed
qed

section \<open>The claims\<close>

text \<open>
  C1. In every state between two link mutations, that is after each completed
  \<^verbatim>\<open>_add_assignment\<close> or \<^verbatim>\<open>_remove_assignment\<close> (and after the constructor and the
  ingestion of a customer), two customers are connected in the undirected graph \<open>g\<close> if
  and only if the mixture model gives them the same cluster id in \<open>z\<close>, provided that
  \<open>new_vector\<close>, \<open>merge\<close> and \<open>split\<close> of the mixture model and the pool of cluster numbers
  behave as specified.
\<close>

theorem link_graph_components_are_clusters:
  assumes "stable st \<or> pending i st" and "a < self_N st" and "b < self_N st"
  shows "connected (self_g st) a b \<longleftrightarrow> mixture_z st ! a = mixture_z st ! b"
proof -
  have "components_are_clusters st"
    using assms(1) reachable_inv(1) reachable_inv(2)
    by (auto simp: stable_inv_def pending_inv_def state_inv_def)
  then show ?thesis
    using assms(2,3) by (simp add: components_are_clusters_def)
qed

theorem link_graph_components_are_clusters_witness:
  "(stable (example_stable 1) \<or> pending 1 (example_stable 1)) \<and>
   (0::nat) < self_N (example_stable 1) \<and> (1::nat) < self_N (example_stable 1) \<and>
   connected (self_g (example_stable 1)) 0 1 \<and>
   (stable (example_pending 1) \<or> pending 1 (example_pending 1)) \<and>
   \<not> connected (self_g (example_pending 1)) 0 1"
proof -
  have s: "stable (example_stable 1) \<or> pending 1 (example_stable 1)"
    using example_stable_reached by simp
  have p: "stable (example_pending 1) \<or> pending 1 (example_pending 1)"
    using example_pending_reached by simp
  have n: "(0::nat) < self_N (example_stable 1)" "(1::nat) < self_N (example_stable 1)"
    "(0::nat) < self_N (example_pending 1)" "(1::nat) < self_N (example_pending 1)"
    by (simp_all add: example_stable_def example_pending_def)
  have "connected (self_g (example_stable 1)) 0 1"
    using link_graph_components_are_clusters [OF s n(1) n(2)]
    by (simp add: example_stable_def)
  moreover have "\<not> connected (self_g (example_pending 1)) 0 1"
    using link_graph_components_are_clusters [OF p n(3) n(4)]
    by (simp add: example_pending_def)
  ultimately show ?thesis using s p n by simp
qed

text \<open>
  C2. For a customer \<open>i\<close> in a state in which every customer has a link (the only states
  in which the method is called), \<^verbatim>\<open>_is_table_split(i)\<close> never raises, and: it returns
  \<open>False\<close> when \<open>c[i] = i\<close> or \<open>c[c[i]] = i\<close>; it returns \<open>False\<close> if the walk
  \<open>c[i], c[c[i]], \<dots>\<close> comes back to \<open>i\<close>; it returns \<open>True\<close> if the walk runs into a
  node it has visited before without having come back to \<open>i\<close>. One of the two happens:
  the result is \<open>True\<close> exactly when the walk never comes back to \<open>i\<close>.
\<close>

theorem is_table_split_follows_links:
  assumes "links_active (self_c st)" and "i < length (self_c st)"
  shows "(self_c st ! i = int i \<or> self_c st ! follow (self_c st) i = int i
            \<longrightarrow> is_table_split st i = Inr False) \<and>
         ((\<exists>m>0. (follow (self_c st) ^^ m) i = i) \<longrightarrow> is_table_split st i = Inr False) \<and>
         ((\<exists>k n. 0 < k \<and> k < n \<and>
                 (follow (self_c st) ^^ n) i = (follow (self_c st) ^^ k) i \<and>
                 (\<forall>j \<in> {1..n}. (follow (self_c st) ^^ j) i \<noteq> i))
            \<longrightarrow> is_table_split st i = Inr True) \<and>
         is_table_split st i = Inr (\<forall>m>0. (follow (self_c st) ^^ m) i \<noteq> i)"
proof -
  define f where "f = follow (self_c st)"
  have walk: "is_table_split st i = Inr (\<forall>m>0. (f ^^ m) i \<noteq> i)"
    using is_table_split_walk [OF assms] by (simp add: f_def)
  have fi: "int (f i) = self_c st ! i"
    using follow_int [OF assms] by (simp add: f_def)
  have ffi: "int (f (f i)) = self_c st ! f i"
    using follow_int [OF assms(1), of "f i"] follow_less [OF assms] by (simp add: f_def)
  have near: "\<exists>m>0. (f ^^ m) i = i" if "self_c st ! i = int i \<or> self_c st ! f i = int i"
  proof -
    from that have "(f ^^ 1) i = i \<or> (f ^^ 2) i = i"
      using fi ffi by (auto simp: numeral_2_eq_2)
    then show ?thesis by (metis zero_less_one zero_less_numeral)
  qed
  have revisit: "\<forall>m>0. (f ^^ m) i \<noteq> i"
    if "\<exists>k n. 0 < k \<and> k < n \<and> (f ^^ n) i = (f ^^ k) i \<and> (\<forall>j \<in> {1..n}. (f ^^ j) i \<noteq> i)"
  proof -
    from that obtain k n where "0 < k" "k < n" "(f ^^ n) i = (f ^^ k) i"
      "\<forall>j \<in> {1..n}. (f ^^ j) i \<noteq> i"
      by blast
    then show ?thesis
      using walk_never_returns [where f = f and n = n and i = i and k = k] by simp
  qed
  have no: "is_table_split st i = Inr False" if "\<exists>m>0. (f ^^ m) i = i"
    using that by (simp add: walk)
  have yes: "is_table_split st i = Inr True" if "\<forall>m>0. (f ^^ m) i \<noteq> i"
    using that by (simp add: walk)
  show ?thesis
    unfolding f_def [symmetric]
  proof (intro conjI impI)
    assume "self_c st ! i = int i \<or> self_c st ! f i = int i"
    then show "is_table_split st i = Inr False" by (rule no [OF near])
  next
    assume "\<exists>m>0. (f ^^ m) i = i"
    then show "is_table_split st i = Inr False" by (rule no)
  next
    assume "\<exists>k n. 0 < k \<and> k < n \<and> (f ^^ n) i = (f ^^ k) i \<and>
                 (\<forall>j \<in> {1..n}. (f ^^ j) i \<noteq> i)"
    then show "is_table_split st i = Inr True" by (rule yes [OF revisit])
  next
    show "is_table_split st i = Inr (\<forall>m>0. (f ^^ m) i \<noteq> i)" by (rule walk)
  qed
qed

theorem is_table_split_follows_links_witness:
  "links_active (self_c (example_stable 1)) \<and>
   (0::nat) < length (self_c (example_stable 1)) \<and>
   (1::nat) < length (self_c (example_stable 1)) \<and>
   self_c (example_stable 1) ! 0 = int 0 \<and>
   is_table_split (example_stable 1) 0 = Inr False \<and>
   (\<exists>m>0. (follow (self_c (example_stable 1)) ^^ m) 0 = 0) \<and>
   is_table_split (example_stable 1) 1 = Inr True"
proof -
  let ?E = "example_stable 1"
  have act: "links_active (self_c ?E)"
    by (simp add: links_active_def example_stable_def less_Suc_eq numeral_2_eq_2)
  have len: "(0::nat) < length (self_c ?E)" "(1::nat) < length (self_c ?E)"
    by (simp_all add: example_stable_def)
  have own: "self_c ?E ! 0 = int 0" by (simp add: example_stable_def)
  have one: "(follow (self_c ?E) ^^ 1) 0 = 0"
    by (simp add: follow_def example_stable_def)
  then have comes_back: "\<exists>m>0. (follow (self_c ?E) ^^ m) 0 = 0"
    by (metis zero_less_one)
  have never: "(follow (self_c ?E) ^^ m) 1 \<noteq> 1" if "0 < m" for m
  proof -
    have "(follow (self_c ?E) ^^ Suc k) 1 = 0" for k
      by (induction k) (simp_all add: follow_def example_stable_def)
    then show ?thesis using that by (cases m) simp_all
  qed
  have "is_table_split ?E 0 = Inr False"
    using is_table_split_follows_links [OF act len(1)] own by simp
  moreover have "is_table_split ?E 1 = Inr True"
    using is_table_split_follows_links [OF act len(2)] never by simp
  ultimately show ?thesis using act len own comes_back by simp
qed

text \<open>
  C3. In a state where the link of \<open>i\<close> has been removed, with timestamps for \<open>i\<close> and
  the candidate \<open>t\<close>, a positive \<open>alpha\<close> and a positive decay weight, the log-weight of
  \<open>t\<close> is \<open>log(alpha)\<close> when \<open>t = i\<close>, \<open>log(decay(|timestamp[i] - timestamp[t]|))\<close> when
  \<open>t \<noteq> i\<close> and \<open>z[i] = z[t]\<close>, and that logarithm plus \<open>L(k \<union> l) - L(k) - L(l)\<close> when
  \<open>z[i] \<noteq> z[t]\<close>, where \<open>k\<close> and \<open>l\<close> are the connected components of \<open>i\<close> and \<open>t\<close> in the
  undirected graph and each \<open>L\<close> is read through the cache. Only the cache changes.
\<close>

theorem assignment_probability_log_weight:
  assumes "pending i st" and "t < self_N st"
    and "i < length (self_timestamps st)" and "t < length (self_timestamps st)"
    and "0 < self_alpha st"
    and "t \<noteq> i \<longrightarrow> 0 < self_f st \<bar>self_timestamps st ! i - self_timestamps st ! t\<bar>"
  shows "\<exists>cache'. assignment_probability L st i t =
           Inr (if t = i then ln (self_alpha st)
                else if mixture_z st ! i = mixture_z st ! t
                  then ln (self_f st \<bar>self_timestamps st ! i - self_timestamps st ! t\<bar>)
                else ln (self_f st \<bar>self_timestamps st ! i - self_timestamps st ! t\<bar>)
                     + (cached L (self_likelihood_cache st)
                          (component (self_g st) i \<union> component (self_g st) t)
                        - cached L (self_likelihood_cache st) (component (self_g st) i)
                        - cached L (self_likelihood_cache st) (component (self_g st) t)),
                st\<lparr>self_likelihood_cache := cache'\<rparr>)"
proof -
  have inv: "pending_inv i st" using assms(1) by (rule reachable_inv)
  then have "sizes_ok st" "graph_of_links st" "i < self_N st"
    by (simp_all add: pending_inv_def state_inv_def)
  then show ?thesis
    using assms(2-) by (intro assignment_probability_value) simp_all
qed

theorem assignment_probability_log_weight_witness:
  "pending 1 (example_pending 3) \<and> (0::nat) < self_N (example_pending 3) \<and>
   (1::nat) < length (self_timestamps (example_pending 3)) \<and>
   (0::nat) < length (self_timestamps (example_pending 3)) \<and>
   0 < self_alpha (example_pending 3) \<and>
   0 < self_f (example_pending 3)
         \<bar>self_timestamps (example_pending 3) ! 1 - self_timestamps (example_pending 3) ! 0\<bar> \<and>
   mixture_z (example_pending 3) ! 1 \<noteq> mixture_z (example_pending 3) ! 0 \<and>
   (\<exists>cache'. assignment_probability (\<lambda>S. real (card S)) (example_pending 3) 1 0 =
       Inr (0, (example_pending 3)\<lparr>self_likelihood_cache := cache'\<rparr>)) \<and>
   (\<exists>cache'. assignment_probability (\<lambda>S. real (card S)) (example_pending 3) 1 1 =
       Inr (0, (example_pending 3)\<lparr>self_likelihood_cache := cache'\<rparr>))"
proof -
  let ?E = "example_pending 3"
  let ?L = "\<lambda>S::nat set. real (card S)"
  have h: "(0::nat) < self_N ?E" "(1::nat) < self_N ?E"
    "(1::nat) < length (self_timestamps ?E)" "(0::nat) < length (self_timestamps ?E)"
    "0 < self_alpha ?E"
    by (simp_all add: example_pending_def)
  have pos: "0 < self_f ?E \<bar>self_timestamps ?E ! 1 - self_timestamps ?E ! 0\<bar>"
    by (simp add: example_pending_def window_decay_def)
  have z: "mixture_z ?E ! 1 \<noteq> mixture_z ?E ! 0" by (simp add: example_pending_def)
  have cache: "cached ?L (self_likelihood_cache ?E) S = real (card S)" for S
    by (simp add: cached_def example_pending_def)
  have f1: "self_f ?E \<bar>self_timestamps ?E ! 1 - self_timestamps ?E ! 0\<bar> = 1"
    by (simp add: example_pending_def window_decay_def)
  have a1: "self_alpha ?E = 1" by (simp add: example_pending_def)
  have "\<exists>cache'. assignment_probability ?L ?E 1 0 =
       Inr (0, ?E\<lparr>self_likelihood_cache := cache'\<rparr>)"
    using assignment_probability_log_weight [OF example_pending_reached h(1) h(3) h(4) h(5), of ?L]
      pos z
    by (simp add: cache example_components example_components [unfolded One_nat_def]
          f1 f1 [unfolded One_nat_def])
  moreover have "\<exists>cache'. assignment_probability ?L ?E 1 1 =
       Inr (0, ?E\<lparr>self_likelihood_cache := cache'\<rparr>)"
    using assignment_probability_log_weight [OF example_pending_reached h(2) h(3) h(3) h(5), of ?L]
    by (simp add: a1)
  ultimately show ?thesis using example_pending_reached h pos z by simp
qed

text \<open>
  C4. \<^verbatim>\<open>_add_assignment(i, t)\<close> on arrays of the right size always returns. When
  \<open>z[i] \<noteq> z[t]\<close>, the mixture model is told to merge with the smaller of the two ids
  as the surviving and the larger as the absorbed one, the larger id is put into the pool
  and \<open>K\<close> goes down by one; when \<open>z[i] = z[t]\<close>, the mixture model, the pool and \<open>K\<close>
  stay as they are. In both cases the returned state has \<open>c[i] = t\<close>, \<open>t\<close> added to
  \<open>g[i]\<close> and \<open>i\<close> added to \<open>g[t]\<close>, and no other adjacency set changes.
\<close>

theorem add_assignment_merges_into_smaller_id:
  assumes "sizes_ok st" and "i < self_N st" and "t < self_N st"
  shows "\<exists>st'. add_assignment st i t = Inr st' \<and>
           (if mixture_z st ! i \<noteq> mixture_z st ! t then
              mixture_z st' =
                mixture_merge (min (mixture_z st ! i) (mixture_z st ! t))
                  (max (mixture_z st ! i) (mixture_z st ! t)) (mixture_z st) \<and>
              reusable_numbers st' =
                put_nowait (max (mixture_z st ! i) (mixture_z st ! t)) (reusable_numbers st) \<and>
              self_K st' = self_K st - 1
            else
              mixture_z st' = mixture_z st \<and>
              reusable_numbers st' = reusable_numbers st \<and>
              self_K st' = self_K st) \<and>
           self_c st' = (self_c st)[i := int t] \<and>
           self_g st' ! i = insert t (self_g st ! i) \<union> (if i = t then {i} else {}) \<and>
           self_g st' ! t = insert i (self_g st ! t) \<union> (if i = t then {t} else {}) \<and>
           (\<forall>a < self_N st. a \<noteq> i \<and> a \<noteq> t \<longrightarrow> self_g st' ! a = self_g st ! a)"
proof -
  from add_assignment_fields [OF assms] obtain st' where
    run: "add_assignment st i t = Inr st'"
    and c': "self_c st' = (self_c st)[i := int t]"
    and g': "\<forall>a < self_N st. self_g st' ! a =
              self_g st ! a \<union> (if a = i then {t} else {}) \<union> (if a = t then {i} else {})"
    and z': "mixture_z st' =
             (if mixture_z st ! i \<noteq> mixture_z st ! t
              then mixture_merge (min (mixture_z st ! i) (mixture_z st ! t))
                     (max (mixture_z st ! i) (mixture_z st ! t)) (mixture_z st)
              else mixture_z st)"
    and p': "reusable_numbers st' =
             (if mixture_z st ! i \<noteq> mixture_z st ! t
              then put_nowait (max (mixture_z st ! i) (mixture_z st ! t)) (reusable_numbers st)
              else reusable_numbers st)"
    and k': "self_K st' = (if mixture_z st ! i \<noteq> mixture_z st ! t then self_K st - 1 else self_K st)"
    by blast
  have gi: "self_g st' ! i = insert t (self_g st ! i) \<union> (if i = t then {i} else {})"
    using g' assms(2) by auto
  have gt: "self_g st' ! t = insert i (self_g st ! t) \<union> (if i = t then {t} else {})"
    using g' assms(3) by auto
  have rest: "\<forall>a < self_N st. a \<noteq> i \<and> a \<noteq> t \<longrightarrow> self_g st' ! a = self_g st ! a"
    using g' by simp
  show ?thesis
    using run c' z' p' k' gi gt rest by (intro exI [of _ st']) simp
qed

theorem add_assignment_merges_into_smaller_id_witness:
  "sizes_ok (example_pending 1) \<and> (1::nat) < self_N (example_pending 1) \<and>
   (0::nat) < self_N (example_pending 1) \<and>
   mixture_z (example_pending 1) ! 1 \<noteq> mixture_z (example_pending 1) ! 0 \<and>
   (\<exists>st'. add_assignment (example_pending 1) 1 0 = Inr st' \<and>
          mixture_z st' = [0, 0] \<and> reusable_numbers st' = [1] \<and> self_K st' = 1 \<and>
          self_c st' = [0, 0])"
proof -
  let ?E = "example_pending 1"
  have sz: "sizes_ok ?E" by (simp add: sizes_ok_def example_pending_def)
  have n: "(1::nat) < self_N ?E" "(0::nat) < self_N ?E" by (simp_all add: example_pending_def)
  have z: "mixture_z ?E ! 1 \<noteq> mixture_z ?E ! 0" by (simp add: example_pending_def)
  from add_assignment_merges_into_smaller_id [OF sz n]
  obtain st' where "add_assignment ?E 1 0 = Inr st'"
    and "mixture_z st' = mixture_merge (min (mixture_z ?E ! 1) (mixture_z ?E ! 0))
                  (max (mixture_z ?E ! 1) (mixture_z ?E ! 0)) (mixture_z ?E)"
    and "reusable_numbers st' =
                put_nowait (max (mixture_z ?E ! 1) (mixture_z ?E ! 0)) (reusable_numbers ?E)"
    and "self_K st' = self_K ?E - 1"
    and "self_c st' = (self_c ?E)[1 := int 0]"
    using z by auto
  then have "add_assignment ?E 1 0 = Inr st' \<and>
          mixture_z st' = [0, 0] \<and> reusable_numbers st' = [1] \<and> self_K st' = 1 \<and>
          self_c st' = [0, 0]"
    by (simp add: example_pending_def mixture_merge_def put_nowait_def)
  then show ?thesis using sz n z by blast
qed

text \<open>
  C5. \<^verbatim>\<open>_remove_assignment(i)\<close> in a state in which every customer has a link, with
  \<open>t\<close> the target of \<open>i\<close>: the split check is the one of the state before the call; the
  call returns unless a split finds the pool empty; the returned state has the sentinel
  \<open>-1\<close> at \<open>c[i]\<close> and its undirected graph is the old one with \<open>i\<close> taken out of \<open>g[i]\<close>
  when \<open>t = i\<close>, unchanged when \<open>c[t] = i\<close>, and with \<open>t\<close> taken out of \<open>g[i]\<close> and \<open>i\<close>
  out of \<open>g[t]\<close> otherwise. A table is added exactly when the split check of the state
  before the call said so.
\<close>

theorem remove_assignment_updates_links:
  assumes "stable st" and "i < self_N st"
  shows "\<exists>is_split t. is_table_split st i = Inr is_split \<and> self_c st ! i = int t \<and>
           (if is_split \<and> reusable_numbers st = [] then remove_assignment st i = Inl QueueEmpty
            else \<exists>st'. remove_assignment st i = Inr st' \<and>
                   self_c st' = (self_c st)[i := - 1] \<and>
                   self_g st' =
                     (if t = i then (self_g st)[i := self_g st ! i - {i}]
                      else if self_c st ! t = int i then self_g st
                      else (self_g st)[i := self_g st ! i - {t}, t := self_g st ! t - {i}]) \<and>
                   (self_K st' = self_K st + 1 \<longleftrightarrow> is_split) \<and>
                   (self_K st' = self_K st \<longleftrightarrow> \<not> is_split))"
proof -
  have inv: "stable_inv st" using assms(1) by (rule reachable_inv)
  then have act: "links_active (self_c st)" and sz: "sizes_ok st"
    by (simp_all add: stable_inv_def state_inv_def)
  have len: "length (self_c st) = self_N st" using sz by (simp add: sizes_ok_def)
  define t where "t = follow (self_c st) i"
  define never where "never \<longleftrightarrow> (\<forall>m>0. (follow (self_c st) ^^ m) i \<noteq> i)"
  define st1 where "st1 = st\<lparr>self_g := removeLink_spec (self_g st) (self_c st) i,
                               self_c := (self_c st)[i := - 1]\<rparr>"
  have split: "is_table_split st i = Inr never"
    using is_table_split_walk [OF act] assms(2) len by (simp add: never_def)
  have ti: "self_c st ! i = int t"
    using follow_int [OF act, of i] assms(2) len by (simp add: t_def)
  note res = remove_assignment_result [OF inv assms(2) st1_def never_def]
  have g1: "self_g st1 =
      (if t = i then (self_g st)[i := self_g st ! i - {i}]
       else if self_c st ! t = int i then self_g st
       else (self_g st)[i := self_g st ! i - {t}, t := self_g st ! t - {i}])"
    by (simp add: st1_def removeLink_spec_def Let_def t_def)
  have c1: "self_c st1 = (self_c st)[i := - 1]" and k1: "self_K st1 = self_K st"
    by (simp_all add: st1_def)
  have "if never \<and> reusable_numbers st = [] then remove_assignment st i = Inl QueueEmpty
        else \<exists>st'. remove_assignment st i = Inr st' \<and>
               self_c st' = (self_c st)[i := - 1] \<and>
               self_g st' =
                 (if t = i then (self_g st)[i := self_g st ! i - {i}]
                  else if self_c st ! t = int i then self_g st
                  else (self_g st)[i := self_g st ! i - {t}, t := self_g st ! t - {i}]) \<and>
               (self_K st' = self_K st + 1 \<longleftrightarrow> never) \<and>
               (self_K st' = self_K st \<longleftrightarrow> \<not> never)"
  proof (cases never)
    case False
    then have "remove_assignment st i = Inr st1" using res by simp
    then show ?thesis using False g1 c1 k1 by simp
  next
    case True
    show ?thesis
    proof (cases "reusable_numbers st")
      case Nil
      then show ?thesis using True res by simp
    next
      case (Cons k rest)
      then show ?thesis using True res g1 c1 k1 by simp
    qed
  qed
  then show ?thesis using split ti by blast
qed

theorem remove_assignment_updates_links_witness:
  "stable (example_stable 1) \<and> (1::nat) < self_N (example_stable 1) \<and>
   is_table_split (example_stable 1) 1 = Inr True \<and>
   self_c (example_stable 1) ! 1 = int 0 \<and>
   (\<exists>st'. remove_assignment (example_stable 1) 1 = Inr st' \<and>
          self_c st' = [0, - 1] \<and> self_g st' = [{0}, {}] \<and>
          self_K st' = self_K (example_stable 1) + 1)"
proof -
  let ?E = "example_stable 1"
  have n: "(1::nat) < self_N ?E" by (simp add: example_stable_def)
  have run: "remove_assignment ?E 1 = Inr (example_pending 1)"
    by (rule example_remove_split)
  from remove_assignment_updates_links [OF example_stable_reached n]
  obtain is_split t where split: "is_table_split ?E 1 = Inr is_split"
    and t: "self_c ?E ! 1 = int t"
    and rest: "if is_split \<and> reusable_numbers ?E = [] then remove_assignment ?E 1 = Inl QueueEmpty
            else \<exists>st'. remove_assignment ?E 1 = Inr st' \<and>
                   self_c st' = (self_c ?E)[1 := - 1] \<and>
                   self_g st' =
                     (if t = 1 then (self_g ?E)[1 := self_g ?E ! 1 - {1}]
                      else if self_c ?E ! t = int 1 then self_g ?E
                      else (self_g ?E)[1 := self_g ?E ! 1 - {t}, t := self_g ?E ! t - {1}]) \<and>
                   (self_K st' = self_K ?E + 1 \<longleftrightarrow> is_split) \<and>
                   (self_K st' = self_K ?E \<longleftrightarrow> \<not> is_split)"
    by blast
  have t0: "t = 0" using t by (simp add: example_stable_def)
  have "reusable_numbers ?E \<noteq> []" by (simp add: example_stable_def)
  then have k: "self_K (example_pending 1) = self_K ?E + 1 \<longleftrightarrow> is_split"
    using rest run by auto
  have "self_K (example_pending 1) = self_K ?E + 1"
    by (simp add: example_pending_def example_stable_def)
  then have "is_split" using k by simp
  then have "is_table_split ?E 1 = Inr True" using split by simp
  moreover have "self_c (example_pending 1) = [0, - 1]" "self_g (example_pending 1) = [{0}, {}]"
    "self_K (example_pending 1) = self_K ?E + 1"
    by (simp_all add: example_pending_def example_stable_def)
  ultimately show ?thesis
    using example_stable_reached n t t0 run by simp
qed

text \<open>
  C6. \<^verbatim>\<open>_remove_assignment(i)\<close> in a state in which every customer has a link. When the
  split check returns \<open>True\<close>, a cluster number \<open>k\<close> is taken out of the pool (the call
  raises if the pool is empty), \<^verbatim>\<open>_get_people_next_to(i)\<close> on the graph after the
  removal returns the connected component of \<open>i\<close> in that graph, the mixture model is
  told to split exactly these customers off into \<open>k\<close>, and \<open>K\<close> goes up by one. When
  the split check returns \<open>False\<close>, the pool, the cluster ids and \<open>K\<close> stay as they are.
\<close>

theorem remove_assignment_splits_component:
  assumes "stable st" and "i < self_N st"
  shows "(is_table_split st i = Inr True \<longrightarrow>
            (case reusable_numbers st of
               [] \<Rightarrow> remove_assignment st i = Inl QueueEmpty
             | k # rest \<Rightarrow>
                 \<exists>st'. remove_assignment st i = Inr st' \<and>
                   reusable_numbers st' = rest \<and>
                   get_people_next_to st' i = Inr (component (self_g st') i) \<and>
                   mixture_z st' =
                     mixture_split (mixture_z st ! i) k (component (self_g st') i) (mixture_z st) \<and>
                   (\<forall>a < self_N st. mixture_z st' ! a =
                      (if connected (self_g st') i a then k else mixture_z st ! a)) \<and>
                   self_K st' = self_K st + 1)) \<and>
         (is_table_split st i = Inr False \<longrightarrow>
            (\<exists>st'. remove_assignment st i = Inr st' \<and>
               reusable_numbers st' = reusable_numbers st \<and>
               mixture_z st' = mixture_z st \<and>
               self_K st' = self_K st))"
proof -
  have inv: "stable_inv st" using assms(1) by (rule reachable_inv)
  then have act: "links_active (self_c st)" and sz: "sizes_ok st" and gl: "graph_of_links st"
    by (simp_all add: stable_inv_def state_inv_def)
  have len: "length (self_c st) = self_N st" "length (mixture_z st) = self_N st"
    using sz by (simp_all add: sizes_ok_def)
  define never where "never \<longleftrightarrow> (\<forall>m>0. (follow (self_c st) ^^ m) i \<noteq> i)"
  define st1 where "st1 = st\<lparr>self_g := removeLink_spec (self_g st) (self_c st) i,
                               self_c := (self_c st)[i := - 1]\<rparr>"
  have split: "is_table_split st i = Inr never"
    using is_table_split_walk [OF act] assms(2) len by (simp add: never_def)
  note res = remove_assignment_result [OF inv assms(2) st1_def never_def]
  have sz1: "sizes_ok st1" and gl1: "graph_of_links st1"
    using unlinked_state(1,2) [OF sz gl act assms(2)] by (simp_all add: st1_def)
  have people: "get_people_next_to st' i = Inr (component (self_g st1) i)"
    if "self_g st' = self_g st1" for st' :: ddcrp
  proof -
    have "wf_g (self_g st')" using wf_g_of_links [OF sz1 gl1] that by simp
    moreover have "i < length (self_g st')"
      using sz1 assms(2) that by (simp add: sizes_ok_def st1_def)
    ultimately show ?thesis
      using get_people_next_to_component [of st' i] that by simp
  qed
  have yes: "case reusable_numbers st of
               [] \<Rightarrow> remove_assignment st i = Inl QueueEmpty
             | k # rest \<Rightarrow>
                 \<exists>st'. remove_assignment st i = Inr st' \<and>
                   reusable_numbers st' = rest \<and>
                   get_people_next_to st' i = Inr (component (self_g st') i) \<and>
                   mixture_z st' =
                     mixture_split (mixture_z st ! i) k (component (self_g st') i) (mixture_z st) \<and>
                   (\<forall>a < self_N st. mixture_z st' ! a =
                      (if connected (self_g st') i a then k else mixture_z st ! a)) \<and>
                   self_K st' = self_K st + 1"
    if never
  proof (cases "reusable_numbers st")
    case Nil
    then show ?thesis using that res by simp
  next
    case (Cons k rest)
    define st' where "st' = st1\<lparr>reusable_numbers := rest,
                      mixture_z := mixture_split (mixture_z st ! i) k
                                     (component (self_g st1) i) (mixture_z st),
                      self_K := self_K st + 1\<rparr>"
    have run: "remove_assignment st i = Inr st'"
      using that res Cons by (simp add: st'_def)
    have g': "self_g st' = self_g st1" by (simp add: st'_def)
    have "reusable_numbers st' = rest" "self_K st' = self_K st + 1"
      by (simp_all add: st'_def)
    moreover have "get_people_next_to st' i = Inr (component (self_g st') i)"
      using people [OF g'] g' by simp
    moreover have z': "mixture_z st' =
        mixture_split (mixture_z st ! i) k (component (self_g st') i) (mixture_z st)"
      by (simp add: st'_def)
    moreover have "\<forall>a < self_N st. mixture_z st' ! a =
                      (if connected (self_g st') i a then k else mixture_z st ! a)"
      using len by (simp add: z' mixture_split_nth component_def)
    ultimately show ?thesis using run Cons by simp
  qed
  have no: "\<exists>st'. remove_assignment st i = Inr st' \<and>
               reusable_numbers st' = reusable_numbers st \<and>
               mixture_z st' = mixture_z st \<and>
               self_K st' = self_K st"
    if "\<not> never"
    using that res by (simp add: st1_def)
  show ?thesis
    using yes no by (simp add: split)
qed

theorem remove_assignment_splits_component_witness:
  "stable (example_stable 1) \<and> (1::nat) < self_N (example_stable 1) \<and>
   (0::nat) < self_N (example_stable 1) \<and>
   is_table_split (example_stable 1) 1 = Inr True \<and>
   (\<exists>st'. remove_assignment (example_stable 1) 1 = Inr st' \<and>
      reusable_numbers st' = [] \<and> component (self_g st') 1 = {1} \<and>
      mixture_z st' = [0, 1] \<and> self_K st' = 2) \<and>
   is_table_split (example_stable 1) 0 = Inr False \<and>
   (\<exists>st'. remove_assignment (example_stable 1) 0 = Inr st' \<and>
      reusable_numbers st' = [1] \<and> mixture_z st' = [0, 0] \<and> self_K st' = 1)"
proof -
  let ?E = "example_stable 1"
  have n: "(1::nat) < self_N ?E" "(0::nat) < self_N ?E" by (simp_all add: example_stable_def)
  have split1: "is_table_split ?E 1 = Inr True"
    by (simp add: is_table_split_def py_nth_def py_get_def is_table_split_loop.simps
          example_stable_def)
  have split0: "is_table_split ?E 0 = Inr False"
    by (simp add: is_table_split_def py_nth_def example_stable_def)
  have pool: "reusable_numbers ?E = [1]" by (simp add: example_stable_def)
  from remove_assignment_splits_component [OF example_stable_reached n(1)] split1 pool
  obtain st' where run: "remove_assignment ?E 1 = Inr st'"
    and "reusable_numbers st' = []"
    and people: "get_people_next_to st' 1 = Inr (component (self_g st') 1)"
    and z': "mixture_z st' = mixture_split (mixture_z ?E ! 1) 1 (component (self_g st') 1) (mixture_z ?E)"
    and "self_K st' = self_K ?E + 1"
    by auto
  have st': "st' = example_pending 1" using run example_remove_split [of 1] by simp
  have comp: "component (self_g st') 1 = {1}"
    using people example_people [of 1] by (simp add: st')
  have first: "\<exists>st'. remove_assignment ?E 1 = Inr st' \<and>
      reusable_numbers st' = [] \<and> component (self_g st') 1 = {1} \<and>
      mixture_z st' = [0, 1] \<and> self_K st' = 2"
    using run comp by (intro exI [of _ st']) (simp add: st' example_pending_def)
  from remove_assignment_splits_component [OF example_stable_reached n(2)] split0
  obtain st'' where "remove_assignment ?E 0 = Inr st''"
    and "reusable_numbers st'' = reusable_numbers ?E"
    and "mixture_z st'' = mixture_z ?E" and "self_K st'' = self_K ?E"
    by auto
  then have second: "\<exists>st'. remove_assignment ?E 0 = Inr st' \<and>
      reusable_numbers st' = [1] \<and> mixture_z st' = [0, 0] \<and> self_K st' = 1"
    by (intro exI [of _ st'']) (simp add: example_stable_def)
  show ?thesis
    using example_stable_reached n split1 split0 first second by simp
qed

text \<open>
  C7. The claim is that no logarithm of zero is ever evaluated: a candidate whose decay
  weight is 0 is left out or gets the weight minus infinity, and no error is raised. The
  code takes \<^verbatim>\<open>math.log\<close> of the decay weight of every candidate other than \<open>i\<close>
  itself. With the window decay of width 1 and two documents that are 2 days apart, the
  first sampling step after the ingestion evaluates \<^verbatim>\<open>math.log(0)\<close> for the other
  customer and raises \<^verbatim>\<open>ValueError\<close>; no distribution is produced.
\<close>

theorem log_of_zero_weight_raises:
  "add_documents (init 2 1 (\<lambda>d. window_decay d 1)) [(10, 0, 0), (11, 172800, 0)]
     = Inr (example_ingested 1) \<and>
   self_f (example_ingested 1)
     \<bar>self_timestamps (example_ingested 1) ! 0 - self_timestamps (example_ingested 1) ! 1\<bar> = 0 \<and>
   (\<exists>st1. remove_assignment (example_ingested 1) 0 = Inr st1 \<and>
      assignment_probability (\<lambda>S. 0) st1 0 1 = Inl ValueError \<and>
      get_assignment_probabilities (\<lambda>S. 0) st1 0 = Inl ValueError) \<and>
   sample_document (\<lambda>S. 0) (example_ingested 1) 0 1 = Inl ValueError"
proof -
  let ?E = "example_ingested 1"
  let ?L = "\<lambda>S::nat set. 0::real"
  define st1 where "st1 = ?E\<lparr>self_g := [{}, {1}], self_c := [- 1, 1]\<rparr>"
  have docs: "add_documents (init 2 1 (\<lambda>d. window_decay d 1)) [(10, 0, 0), (11, 172800, 0)]
     = Inr ?E"
    unfolding example_documents [of 1] example_ingested_eq [of 1] ..
  have zero: "self_f ?E \<bar>self_timestamps ?E ! 0 - self_timestamps ?E ! 1\<bar> = 0"
    by (simp add: example_ingested_def window_decay_def)
  have rem: "remove_assignment ?E 0 = Inr st1"
    by (simp add: remove_assignment_def is_table_split_def py_nth_def py_get_def
          remove_from_graph_def set_remove_def example_ingested_def st1_def)
  have own: "assignment_probability ?L st1 0 0 = Inr (0, st1)"
    by (simp add: assignment_probability_def math_log_def st1_def example_ingested_def)
  have other: "assignment_probability ?L st1 0 1 = Inl ValueError"
    by (simp add: assignment_probability_def math_log_def py_nth_def window_decay_def
          st1_def example_ingested_def)
  have "[0..<self_N st1] = [0, 1]"
    by (simp add: st1_def example_ingested_def upt_0_2)
  then have probs: "get_assignment_probabilities ?L st1 0 = Inl ValueError"
    using own other by (simp add: get_assignment_probabilities_def)
  have "sample_document ?L ?E 0 1 = Inl ValueError"
    by (simp add: sample_document_def rem probs)
  then show ?thesis using docs zero rem other probs by simp
qed

text \<open>
  C8, with floating-point numbers idealised as reals. In a state where the link of \<open>i\<close>
  has been removed: whenever the log-weights are computed, the vector of probabilities
  made from them has one entry for each of the indices \<open>0, \<dots>, N - 1\<close> in this order
  (\<open>i\<close> among them), every entry is positive, the entries sum to 1, and each entry is
  the exponential of the log-weight minus \<^verbatim>\<open>logsumexp\<close> of all log-weights, which shifts
  by the maximum. The log-weights are computed (no exception is raised) when there is a
  timestamp for every customer, \<open>alpha\<close> is positive and the decay weight of every other
  customer is positive.
\<close>

theorem sampling_probabilities_are_a_distribution:
  assumes "pending i st"
  shows "(\<forall>lps st'. get_assignment_probabilities L st i = Inr (lps, st') \<longrightarrow>
            (\<exists>probs. to_probabilities lps = Inr probs \<and>
               map fst probs = [0..<self_N st] \<and> i \<in> set (map fst probs) \<and>
               (\<forall>p \<in> set probs. 0 < snd p) \<and>
               sum_list (map snd probs) = 1 \<and>
               map snd probs = map (\<lambda>x. exp (x - logsumexp (map snd lps))) (map snd lps))) \<and>
         (length (self_timestamps st) = self_N st \<and> 0 < self_alpha st \<and>
          (\<forall>c < self_N st. c \<noteq> i \<longrightarrow>
             0 < self_f st \<bar>self_timestamps st ! i - self_timestamps st ! c\<bar>) \<longrightarrow>
            (\<exists>lps st'. get_assignment_probabilities L st i = Inr (lps, st')))"
proof (intro conjI allI impI)
  have inv: "pending_inv i st" using assms by (rule reachable_inv)
  then have sz: "sizes_ok st" and gl: "graph_of_links st" and i: "i < self_N st"
    by (simp_all add: pending_inv_def state_inv_def)
  {
    fix lps st' assume run: "get_assignment_probabilities L st i = Inr (lps, st')"
    then have ids: "map fst lps = [0..<self_N st]"
      using assignment_probabilities_loop_ids [of L st i "[0..<self_N st]" "[]" lps st']
      by (simp add: get_assignment_probabilities_def)
    then have "length (map fst lps) = self_N st" by simp
    then have "lps \<noteq> []" using i by auto
    from to_probabilities_distribution [OF this] obtain probs where
      "to_probabilities lps = Inr probs" "map fst probs = map fst lps"
      "map snd probs = map (\<lambda>x. exp (x - logsumexp (map snd lps))) (map snd lps)"
      "\<forall>p \<in> set probs. 0 < snd p" "sum_list (map snd probs) = 1"
      by blast
    then show "\<exists>probs. to_probabilities lps = Inr probs \<and>
               map fst probs = [0..<self_N st] \<and> i \<in> set (map fst probs) \<and>
               (\<forall>p \<in> set probs. 0 < snd p) \<and>
               sum_list (map snd probs) = 1 \<and>
               map snd probs = map (\<lambda>x. exp (x - logsumexp (map snd lps))) (map snd lps)"
      using ids i by (intro exI [of _ probs]) simp
  }
  {
    assume "length (self_timestamps st) = self_N st \<and> 0 < self_alpha st \<and>
          (\<forall>c < self_N st. c \<noteq> i \<longrightarrow>
             0 < self_f st \<bar>self_timestamps st ! i - self_timestamps st ! c\<bar>)"
    then show "\<exists>lps st'. get_assignment_probabilities L st i = Inr (lps, st')"
      unfolding get_assignment_probabilities_def
      using sz gl i by (intro assignment_probabilities_loop_returns) simp_all
  }
qed

theorem sampling_probabilities_are_a_distribution_witness:
  "pending 1 (example_pending 3) \<and>
   length (self_timestamps (example_pending 3)) = self_N (example_pending 3) \<and>
   0 < self_alpha (example_pending 3) \<and>
   0 < self_f (example_pending 3)
         \<bar>self_timestamps (example_pending 3) ! 1 - self_timestamps (example_pending 3) ! 0\<bar> \<and>
   (\<exists>lps st' probs. get_assignment_probabilities (\<lambda>S. 0) (example_pending 3) 1 = Inr (lps, st') \<and>
      to_probabilities lps = Inr probs \<and> map fst probs = [0, 1] \<and>
      sum_list (map snd probs) = 1)"
proof -
  let ?E = "example_pending 3"
  let ?L = "\<lambda>S::nat set. 0::real"
  have h: "length (self_timestamps ?E) = self_N ?E" "0 < self_alpha ?E" "self_N ?E = 2"
    by (simp_all add: example_pending_def)
  have pos0: "0 < self_f ?E \<bar>self_timestamps ?E ! 1 - self_timestamps ?E ! 0\<bar>"
    by (simp add: example_pending_def window_decay_def)
  have pos: "\<forall>c < self_N ?E. c \<noteq> 1 \<longrightarrow>
             0 < self_f ?E \<bar>self_timestamps ?E ! 1 - self_timestamps ?E ! c\<bar>"
  proof (intro allI impI)
    fix c :: nat assume "c < self_N ?E" "c \<noteq> 1"
    then have "c = 0" by (simp add: h(3))
    then show "0 < self_f ?E \<bar>self_timestamps ?E ! 1 - self_timestamps ?E ! c\<bar>"
      using pos0 by simp
  qed
  note dist = sampling_probabilities_are_a_distribution [OF example_pending_reached, of ?L]
  from dist h(1,2) pos obtain lps st' where
    run: "get_assignment_probabilities ?L ?E 1 = Inr (lps, st')"
    by blast
  with dist obtain probs where "to_probabilities lps = Inr probs"
    "map fst probs = [0..<self_N ?E]" "sum_list (map snd probs) = 1"
    by blast
  then have "get_assignment_probabilities ?L ?E 1 = Inr (lps, st') \<and>
      to_probabilities lps = Inr probs \<and> map fst probs = [0, 1] \<and>
      sum_list (map snd probs) = 1"
    using run by (simp add: h(3) upt_0_2)
  then have "\<exists>lps st' probs. get_assignment_probabilities ?L ?E 1 = Inr (lps, st') \<and>
      to_probabilities lps = Inr probs \<and> map fst probs = [0, 1] \<and>
      sum_list (map snd probs) = 1"
    by (intro exI [of _ lps] exI [of _ st'] exI [of _ probs])
  then show ?thesis using example_pending_reached h(1,2) pos0 by simp
qed

text \<open>
  C9, as amended. A document is ingested in a state in which the invariant of the link
  graph holds and every customer has a link, as in every state the program reaches between
  two mutations; \<^verbatim>\<open>_get_new_cluster_number\<close> hands out a number \<open>k\<close> that is not in use,
  however it finds one, and \<^verbatim>\<open>random.randint(0, i)\<close> returns \<open>r\<close>. The new customer
  \<open>i\<close> first is linked to itself, with \<open>g[i] = {i}\<close> and a cluster id that no other
  customer has. If the customer count then exceeds \<open>K_max\<close>, the self-link is removed and
  \<open>i\<close> is linked to \<open>r\<close>, one of \<open>0, \<dots>, i\<close>, whose cluster it then shares; \<open>r\<close> can be
  \<open>i\<close> itself. Whenever \<open>i\<close> ends up linked to itself, because the count does not exceed
  \<open>K_max\<close> or because \<open>r = i\<close>, it keeps a cluster of its own. The round always
  completes, the invariant holds again after it, and with the pool of the model it is the
  round \<open>add_document\<close>.
\<close>

theorem add_document_links_new_customer:
  assumes "stable_inv st" and "r \<le> self_N st"
    and "k \<notin> set (mixture_z st)" and "k \<notin> set rest"
    and "distinct rest" and "set rest \<inter> set (mixture_z st) = {}"
  shows "self_c (append_customer_drawn st doc_id k rest) ! self_N st = int (self_N st) \<and>
         self_g (append_customer_drawn st doc_id k rest) ! self_N st = {self_N st} \<and>
         (\<forall>a < self_N st.
            mixture_z (append_customer_drawn st doc_id k rest) ! a \<noteq>
            mixture_z (append_customer_drawn st doc_id k rest) ! self_N st) \<and>
         (\<exists>st'. add_document_drawn st doc_id timestamp r k rest = Inr st' \<and>
            stable_inv st' \<and>
            self_N st' = self_N st + 1 \<and>
            (if self_K_max st < int (self_N st) + 1
             then self_c st' ! self_N st = int r \<and>
                  mixture_z st' ! self_N st = mixture_z st' ! r
             else self_c st' ! self_N st = int (self_N st)) \<and>
            (self_c st' ! self_N st = int (self_N st) \<longrightarrow>
               (\<forall>a < self_N st. mixture_z st' ! a \<noteq> mixture_z st' ! self_N st))) \<and>
         (reusable_numbers st = k # rest \<longrightarrow>
            append_customer st doc_id = Inr (append_customer_drawn st doc_id k rest) \<and>
            add_document st doc_id timestamp r =
              add_document_drawn st doc_id timestamp r k rest)"
proof -
  define i where "i = self_N st"
  note first = append_customer_drawn_fresh [OF assms(1,3,4,5,6), of doc_id, folded i_def]
  from add_document_drawn_result [OF assms, of doc_id timestamp] obtain st' where
    run: "add_document_drawn st doc_id timestamp r k rest = Inr st'"
    and inv': "stable_inv st'"
    and N': "self_N st' = i + 1"
    and old: "\<forall>b < i. self_c st' ! b = self_c st ! b"
    and new: "self_c st' ! i = (if self_K_max st < int i + 1 then int r else int i)"
    by (auto simp: i_def)
  have act: "links_active (self_c st)" and len: "length (self_c st) = i"
    using assms(1) by (simp_all add: stable_inv_def state_inv_def sizes_ok_def i_def)
  have joined: "mixture_z st' ! i = mixture_z st' ! r" if "self_K_max st < int i + 1"
    using linked_same_cluster [OF inv', of i r] that new assms(2) N' by (simp add: i_def)
  have alone: "\<forall>a < i. mixture_z st' ! a \<noteq> mixture_z st' ! i" if own: "self_c st' ! i = int i"
  proof (intro allI impI)
    fix a assume a: "a < i"
    have others: "\<forall>b < self_N st'. b \<noteq> i \<longrightarrow> self_c st' ! b \<noteq> int i"
    proof (intro allI impI)
      fix b assume "b < self_N st'" "b \<noteq> i"
      then have b: "b < i" by (simp add: N')
      then have "self_c st ! b < int i"
        using act len by (simp add: links_active_def)
      then show "self_c st' ! b \<noteq> int i" using old b by simp
    qed
    show "mixture_z st' ! a \<noteq> mixture_z st' ! i"
      using self_linked_alone [OF inv' _ own others, of a] a N' by simp
  qed
  have second: "\<exists>st'. add_document_drawn st doc_id timestamp r k rest = Inr st' \<and>
            stable_inv st' \<and>
            self_N st' = i + 1 \<and>
            (if self_K_max st < int i + 1
             then self_c st' ! i = int r \<and> mixture_z st' ! i = mixture_z st' ! r
             else self_c st' ! i = int i) \<and>
            (self_c st' ! i = int i \<longrightarrow> (\<forall>a < i. mixture_z st' ! a \<noteq> mixture_z st' ! i))"
    using run inv' N' new joined alone by (intro exI [of _ st']) simp
  have third: "reusable_numbers st = k # rest \<longrightarrow>
            append_customer st doc_id = Inr (append_customer_drawn st doc_id k rest) \<and>
            add_document st doc_id timestamp r =
              add_document_drawn st doc_id timestamp r k rest"
    by (simp add: append_customer_drawn_eq add_document_drawn_eq)
  show ?thesis
    unfolding i_def [symmetric]
    using first second third by (intro conjI)
qed

theorem add_document_links_new_customer_witness:
  "stable_inv (example_ingested 1) \<and> reusable_numbers (example_ingested 1) = [] \<and>
   (0::nat) \<le> self_N (example_ingested 1) \<and>
   (2::int) \<notin> set (mixture_z (example_ingested 1)) \<and>
   self_K_max (example_ingested 1) < int (self_N (example_ingested 1)) + 1 \<and>
   (\<exists>st'. add_document_drawn (example_ingested 1) 12 0 0 2 [] = Inr st' \<and> self_N st' = 3 \<and>
      self_c st' ! 2 = 0 \<and> mixture_z st' ! 2 = mixture_z st' ! 0) \<and>
   stable_inv (example_stable 1) \<and> reusable_numbers (example_stable 1) = [1] \<and>
   (\<exists>st'. add_document (example_stable 1) 12 0 0 = Inr st' \<and> self_N st' = 3 \<and>
      self_c st' ! 2 = 0 \<and> mixture_z st' ! 2 = mixture_z st' ! 0)"
proof -
  let ?F = "example_ingested 1"
  let ?E = "example_stable 1"
  have invF: "stable_inv ?F" using example_ingested_reached by (rule reachable_inv)
  have invE: "stable_inv ?E" using example_stable_reached by (rule reachable_inv)
  have f: "reusable_numbers ?F = []" "(0::nat) \<le> self_N ?F"
    "(2::int) \<notin> set (mixture_z ?F)" "self_K_max ?F < int (self_N ?F) + 1" "self_N ?F = 2"
    "set ([]::int list) \<inter> set (mixture_z ?F) = {}"
    by (simp_all add: example_ingested_def)
  have e: "reusable_numbers ?E = [1]" "(0::nat) \<le> self_N ?E"
    "(1::int) \<notin> set (mixture_z ?E)" "self_K_max ?E < int (self_N ?E) + 1" "self_N ?E = 2"
    "set ([]::int list) \<inter> set (mixture_z ?E) = {}"
    by (simp_all add: example_stable_def)
  have "(2::int) \<notin> set []" "distinct ([]::int list)" by simp_all
  from add_document_links_new_customer
    [where st = "?F" and r = 0 and k = 2 and rest = "[]" and doc_id = 12 and timestamp = 0,
     OF invF f(2) f(3) this f(6)] f(4)
  obtain st' where "add_document_drawn ?F 12 0 0 2 [] = Inr st'" "self_N st' = self_N ?F + 1"
    "self_c st' ! self_N ?F = int 0" "mixture_z st' ! self_N ?F = mixture_z st' ! 0"
    by auto
  then have "add_document_drawn ?F 12 0 0 2 [] = Inr st' \<and> self_N st' = 3 \<and>
      self_c st' ! 2 = 0 \<and> mixture_z st' ! 2 = mixture_z st' ! 0"
    by (simp add: f(5))
  then have at_capacity: "\<exists>st'. add_document_drawn ?F 12 0 0 2 [] = Inr st' \<and> self_N st' = 3 \<and>
      self_c st' ! 2 = 0 \<and> mixture_z st' ! 2 = mixture_z st' ! 0"
    by (rule exI [of _ st'])
  have "(1::int) \<notin> set []" "distinct ([]::int list)" by simp_all
  from add_document_links_new_customer
    [where st = "?E" and r = 0 and k = 1 and rest = "[]" and doc_id = 12 and timestamp = 0,
     OF invE e(2) e(3) this e(6)] e(1) e(4)
  obtain st'' where "add_document ?E 12 0 0 = Inr st''" "self_N st'' = self_N ?E + 1"
    "self_c st'' ! self_N ?E = int 0" "mixture_z st'' ! self_N ?E = mixture_z st'' ! 0"
    by auto
  then have "add_document ?E 12 0 0 = Inr st'' \<and> self_N st'' = 3 \<and>
      self_c st'' ! 2 = 0 \<and> mixture_z st'' ! 2 = mixture_z st'' ! 0"
    by (simp add: e(5))
  then have with_pool: "\<exists>st'. add_document ?E 12 0 0 = Inr st' \<and> self_N st' = 3 \<and>
      self_c st' ! 2 = 0 \<and> mixture_z st' ! 2 = mixture_z st' ! 0"
    by (rule exI [of _ st''])
  show ?thesis
    using invF invE f(1-4) e(1) at_capacity with_pool by simp
qed

text \<open>
  C9 as it is stated fails: with two customers, \<open>K_max = 2\<close> and a third document for
  which \<^verbatim>\<open>random.randint(0, 2)\<close> returns 2, the customer count 3 exceeds \<open>K_max\<close>, and
  the new customer is linked to itself again and keeps a cluster of its own.
\<close>

theorem add_document_keeps_singleton_counterexample:
  "add_document (example_stable 1) 12 0 2 = Inr (example_singleton 1) \<and>
   self_K_max (example_singleton 1) < int (self_N (example_singleton 1)) \<and>
   self_c (example_singleton 1) ! 2 = 2 \<and>
   self_g (example_singleton 1) ! 2 = {2} \<and>
   mixture_z (example_singleton 1) ! 2 \<noteq> mixture_z (example_singleton 1) ! 0 \<and>
   mixture_z (example_singleton 1) ! 2 \<noteq> mixture_z (example_singleton 1) ! 1"
proof -
  let ?E = "example_stable 1"
  define st1 where "st1 = ?E\<lparr>self_ids := [10, 11, 12], self_c := [0, 0, 2],
      self_g := [{0, 1}, {0}, {2}], reusable_numbers := [], mixture_z := [0, 0, 1],
      self_N := 3, self_K := 2\<rparr>"
  define st2 where "st2 = st1\<lparr>self_g := [{0, 1}, {0}, {}], self_c := [0, 0, - 1]\<rparr>"
  have app: "append_customer ?E 12 = Inr st1"
    by (simp add: append_customer_result example_stable_def st1_def)
  have rem: "remove_assignment st1 2 = Inr st2"
    by (simp add: remove_assignment_def is_table_split_def py_nth_def py_get_def
          remove_from_graph_def set_remove_def st1_def st2_def example_stable_def)
  have add: "add_assignment st2 2 2 = Inr (st1\<lparr>self_timestamps := [0, 2]\<rparr>)"
    by (simp add: add_assignment_def py_nth_def py_store_def st1_def st2_def
          example_stable_def)
  have n: "self_N ?E = 2" "self_N st1 = 3" "self_K_max st1 = 2"
    by (simp_all add: example_stable_def st1_def)
  have last: "st1\<lparr>self_timestamps := [0, 2, 0]\<rparr> = example_singleton 1"
    by (simp add: st1_def example_stable_def example_singleton_def)
  have "add_document ?E 12 0 2 = Inr (example_singleton 1)"
    by (simp add: add_document_def app n rem add) (simp add: last)
  then show ?thesis by (simp add: example_singleton_def)
qed

text \<open>
  C10. When every index stored in the undirected graph is below its size, and in
  particular in the state that \<^verbatim>\<open>_remove_assignment(c)\<close> leaves behind,
  \<^verbatim>\<open>_get_people_next_to(c)\<close> returns for every customer \<open>c\<close>, and the set it returns is
  the connected component of \<open>c\<close>; it contains \<open>c\<close> itself and is \<open>{c}\<close> when \<open>g[c]\<close> is
  empty, as it is right after a self-link has been removed. The set handed to the mixture
  model by a split is computed on that graph and therefore contains the customer whose
  link was removed.
\<close>

theorem get_people_next_to_contains_customer:
  assumes "wf_g (self_g st) \<and> c < length (self_g st) \<or> pending c st"
  shows "\<exists>people. get_people_next_to st c = Inr people \<and> c \<in> people \<and>
           people = component (self_g st) c \<and>
           (self_g st ! c = {} \<longrightarrow> people = {c})"
proof -
  have wf: "wf_g (self_g st) \<and> c < length (self_g st)"
    using assms
  proof
    assume "pending c st"
    then have "pending_inv c st" by (rule reachable_inv)
    then have "sizes_ok st" "graph_of_links st" "c < self_N st"
      by (simp_all add: pending_inv_def state_inv_def)
    then show ?thesis
      using wf_g_of_links [of st] by (simp add: sizes_ok_def)
  qed
  then have run: "get_people_next_to st c = Inr (component (self_g st) c)"
    by (simp add: get_people_next_to_component)
  have own: "c \<in> component (self_g st) c"
    by (simp add: component_def connected_refl)
  have "component (self_g st) c = {c}" if empty: "self_g st ! c = {}"
  proof -
    have "c \<notin> Domain (edges (self_g st))"
      using empty by (auto simp: edges_def)
    then have "b = c" if "(c, b) \<in> (edges (self_g st))\<^sup>*" for b
      using that by (rule rtrancl_outside_Domain [rotated])
    then show ?thesis
      using own by (auto simp: component_def connected_def)
  qed
  then show ?thesis using run own by simp
qed

theorem get_people_next_to_contains_customer_witness:
  "pending 1 (example_pending 1) \<and>
   wf_g (self_g (example_pending 1)) \<and> (1::nat) < length (self_g (example_pending 1)) \<and>
   self_g (example_pending 1) ! 1 = {} \<and>
   get_people_next_to (example_pending 1) 1 = Inr {1}"
proof -
  let ?E = "example_pending 1"
  have wf: "wf_g (self_g ?E)"
    by (simp add: wf_g_def example_pending_def less_Suc_eq numeral_2_eq_2)
  have len: "(1::nat) < length (self_g ?E)" by (simp add: example_pending_def)
  have empty: "self_g ?E ! 1 = {}" by (simp add: example_pending_def)
  have "\<exists>people. get_people_next_to ?E 1 = Inr people \<and> 1 \<in> people \<and>
           people = component (self_g ?E) 1 \<and> (self_g ?E ! 1 = {} \<longrightarrow> people = {1})"
    by (rule get_people_next_to_contains_customer) (rule disjI2, rule example_pending_reached)
  then show ?thesis
    using example_pending_reached wf len empty by auto
qed

end
